theory Spec2Isabelle
  imports Main "HOL-Library.Word" "HOL-Library.Multiset"
begin

section \<open>The cross-thread message queue (class InternalMessageQueue)\<close>

text \<open>
  The queue object of \<^verbatim>\<open>juce_linux_Messaging.cpp\<close>: the pending messages, the
  counter \<^verbatim>\<open>bytesInSocket\<close> of wakeup bytes believed to be unread in the socket pair,
  and two counters that record how many one-byte \<^verbatim>\<open>write\<close> and \<^verbatim>\<open>read\<close> system calls
  the object has issued on the socket pair. The C++ counter is an \<^verbatim>\<open>int\<close>; it is
  incremented only below 128 and decremented only above 0, so no operation can wrap
  and an unbounded integer represents it exactly. The critical section makes every
  member function atomic on these fields (the lock is released only around the system
  call, after the fields are updated), so a concurrent execution is a sequence of calls.
\<close>

record 'm InternalMessageQueue =
  queue :: "'m list"
  bytesInSocket :: int
  bytesWritten :: nat
  bytesRead :: nat

definition maxBytesInSocketQueue :: int where
  "maxBytesInSocketQueue = 128"

definition newQueue :: "'m InternalMessageQueue" where
  "newQueue = \<lparr> queue = [], bytesInSocket = 0, bytesWritten = 0, bytesRead = 0 \<rparr>"

definition postMessage :: "'m InternalMessageQueue \<Rightarrow> 'm \<Rightarrow> 'm InternalMessageQueue" where
  "postMessage q msg =
     (let q1 = q\<lparr> queue := queue q @ [msg] \<rparr>
      in if bytesInSocket q1 < maxBytesInSocketQueue
         then q1\<lparr> bytesInSocket := bytesInSocket q1 + 1, bytesWritten := Suc (bytesWritten q1) \<rparr>
         else q1)"

definition removeAndReturn0 :: "'m list \<Rightarrow> 'm option \<times> 'm list" where
  \<comment> \<open>Modelled from the spec: \<^verbatim>\<open>ReferenceCountedArray::removeAndReturn (0)\<close>, whose code is
      not part of the file: it removes and returns the head of the pending queue, or
      signals "empty" (a null pointer) if the queue is empty.\<close>
  "removeAndReturn0 xs = (case xs of [] \<Rightarrow> (None, []) | x # rest \<Rightarrow> (Some x, rest))"

definition popNextMessage :: "'m InternalMessageQueue \<Rightarrow> 'm option \<times> 'm InternalMessageQueue" where
  "popNextMessage q =
     (let q1 = (if bytesInSocket q > 0
                then q\<lparr> bytesInSocket := bytesInSocket q - 1, bytesRead := Suc (bytesRead q) \<rparr>
                else q);
          (r, rest) = removeAndReturn0 (queue q1)
      in (r, q1\<lparr> queue := rest \<rparr>))"

text \<open>
  The read callback that the constructor registers with the run loop:
  \<^verbatim>\<open>while (auto msg = popNextMessage (fd)) { JUCE_TRY { msg->messageCallback(); } JUCE_CATCH_EXCEPTION }\<close>.
  What a message does when invoked is a parameter \<open>mc\<close>: the messages its callback posts
  (through \<^verbatim>\<open>postMessage\<close>, the only mutator the queue offers) and the exception it
  raises, if any. The loop may run forever (a message may keep posting), so not
  returning is the value \<open>None\<close>; an exception leaving the loop is \<open>Some (Inl e)\<close>.
  The loop state carries the queue, the messages invoked so far and the failures
  reported so far.
\<close>

definition JUCE_CATCH_EXCEPTION :: "'e option \<Rightarrow> 'e option \<times> 'e list" where
  \<comment> \<open>Modelled from the spec: the macros \<^verbatim>\<open>JUCE_TRY\<close> and \<^verbatim>\<open>JUCE_CATCH_EXCEPTION\<close> are
      defined outside the file. A failure raised by the invocation is caught and reported
      through the host's error-reporting path. The result is the exception that still
      propagates (none) and the reports made.\<close>
  "JUCE_CATCH_EXCEPTION raised = (case raised of None \<Rightarrow> (None, []) | Some e \<Rightarrow> (None, [e]))"

type_synonym ('m, 'e) drain_state = "'m InternalMessageQueue \<times> 'm list \<times> 'e list"

partial_function (option) readCallback ::
  "('m \<Rightarrow> 'm list \<times> 'e option) \<Rightarrow> ('m, 'e) drain_state \<Rightarrow> ('e + ('m, 'e) drain_state) option"
where
  "readCallback mc st =
     (case st of (q, invoked, reported) \<Rightarrow>
        (case popNextMessage q of
           (None, q1) \<Rightarrow> Some (Inr (q1, invoked, reported))
         | (Some msg, q1) \<Rightarrow>
             (case mc msg of (posts, raised) \<Rightarrow>
                (let q2 = foldl postMessage q1 posts
                 in case JUCE_CATCH_EXCEPTION raised of
                      (Some e, reports) \<Rightarrow> Some (Inl e)
                    | (None, reports) \<Rightarrow> readCallback mc (q2, invoked @ [msg], reported @ reports)))))"

text \<open>The failures raised by the messages of a list, in order.\<close>

fun failures :: "('m \<Rightarrow> 'm list \<times> 'e option) \<Rightarrow> 'm list \<Rightarrow> 'e list" where
  "failures mc [] = []"
| "failures mc (m # ms) =
     (case snd (mc m) of None \<Rightarrow> failures mc ms | Some e \<Rightarrow> e # failures mc ms)"

text \<open>
  The messages posted by the callbacks of a list of messages, in order; the queue
  object after the loop has popped and invoked the messages of a list, one iteration
  each; and the messages of the first \<open>k\<close> rounds of a drain, where a round is the
  queue's content and the next round is what the callbacks of that round post.
\<close>

definition posted_by :: "('m \<Rightarrow> 'm list \<times> 'e option) \<Rightarrow> 'm list \<Rightarrow> 'm list" where
  "posted_by mc ms = concat (map (\<lambda>m. fst (mc m)) ms)"

fun after_invoking ::
  "('m \<Rightarrow> 'm list \<times> 'e option) \<Rightarrow> 'm list \<Rightarrow> 'm InternalMessageQueue \<Rightarrow> 'm InternalMessageQueue" where
  "after_invoking mc [] q = q"
| "after_invoking mc (m # ms) q =
     after_invoking mc ms (foldl postMessage (snd (popNextMessage q)) (fst (mc m)))"

fun rounds :: "('m \<Rightarrow> 'm list \<times> 'e option) \<Rightarrow> nat \<Rightarrow> 'm list \<Rightarrow> 'm list" where
  "rounds mc 0 ms = []"
| "rounds mc (Suc k) ms = ms @ rounds mc k (posted_by mc ms)"

text \<open>Any sequence of calls on the queue, with the results of the pops.\<close>

datatype 'm queue_call = Post 'm | Pop

fun run_calls :: "'m queue_call list \<Rightarrow> 'm InternalMessageQueue \<Rightarrow> 'm option list \<times> 'm InternalMessageQueue" where
  "run_calls [] q = ([], q)"
| "run_calls (Post m # cs) q = run_calls cs (postMessage q m)"
| "run_calls (Pop # cs) q =
     (case popNextMessage q of (r, q1) \<Rightarrow>
        (case run_calls cs q1 of (rs, q2) \<Rightarrow> (r # rs, q2)))"

fun posted :: "'m queue_call list \<Rightarrow> 'm list" where
  "posted [] = []"
| "posted (Post m # cs) = m # posted cs"
| "posted (Pop # cs) = posted cs"

fun returned :: "'m option list \<Rightarrow> 'm list" where
  "returned [] = []"
| "returned (None # rs) = returned rs"
| "returned (Some m # rs) = m # returned rs"

section \<open>The multiplexed run loop (struct InternalRunLoop)\<close>

text \<open>
  The C structure \<^verbatim>\<open>pollfd\<close>: a descriptor, the requested events and the events the
  kernel reported. The two masks are C \<^verbatim>\<open>short\<close>s; the code only assigns them and
  compares \<^verbatim>\<open>revents\<close> with zero, so 16-bit words represent them.
\<close>

record pollfd =
  fd :: int
  events :: "16 word"
  revents :: "16 word"

text \<open>
  A ready-callback is a \<^verbatim>\<open>std::function<void (int)>\<close>. Its effect on the run loop
  can only go through the two public registration functions, both of which merely
  append to the pending change set. A callback is therefore a function of the
  descriptor and of the state \<open>'w\<close> of everything outside the run loop, giving the
  registration calls it makes, in order, and the new outside state.
\<close>

datatype 'w call =
    RegisterFdCallback int "int \<Rightarrow> 'w \<Rightarrow> 'w call list \<times> 'w" "16 word"
  | UnregisterFdCallback int

type_synonym 'w callback = "int \<Rightarrow> 'w \<Rightarrow> 'w call list \<times> 'w"

record 'w InternalRunLoop =
  fdReadCallbacks :: "(int \<times> 'w callback) list"
  pfds :: "pollfd list"
  pendingAdditions :: "(int \<times> 'w callback \<times> pollfd) list"
  pendingRemovals :: "int list"

definition newRunLoop :: "'w InternalRunLoop" where
  "newRunLoop = \<lparr> fdReadCallbacks = [], pfds = [], pendingAdditions = [], pendingRemovals = [] \<rparr>"

definition registerFdCallback :: "'w InternalRunLoop \<Rightarrow> int \<Rightarrow> 'w callback \<Rightarrow> 16 word \<Rightarrow> 'w InternalRunLoop" where
  "registerFdCallback rl d cb eventMask =
     (let pfd = \<lparr> fd = d, events = eventMask, revents = 0 \<rparr>
      in rl\<lparr> pendingAdditions := pendingAdditions rl @ [(d, cb, pfd)] \<rparr>)"

definition unregisterFdCallback :: "'w InternalRunLoop \<Rightarrow> int \<Rightarrow> 'w InternalRunLoop" where
  "unregisterFdCallback rl d = rl\<lparr> pendingRemovals := pendingRemovals rl @ [d] \<rparr>"

definition removeFdCallback :: "'w InternalRunLoop \<Rightarrow> int \<Rightarrow> 'w InternalRunLoop" where
  "removeFdCallback rl d =
     rl\<lparr> fdReadCallbacks := filter (\<lambda>cb. \<not> (fst cb = d)) (fdReadCallbacks rl),
         pfds := filter (\<lambda>pfd. \<not> (fd pfd = d)) (pfds rl) \<rparr>"

definition mergeAddition ::
  "'w InternalRunLoop \<Rightarrow> int \<times> 'w callback \<times> pollfd \<Rightarrow> 'w InternalRunLoop" where
  "mergeAddition rl addition =
     (case addition of (d, cb, pfd) \<Rightarrow>
        rl\<lparr> fdReadCallbacks := fdReadCallbacks rl @ [(d, cb)], pfds := pfds rl @ [pfd] \<rparr>)"

definition applyPendingChanges :: "'w InternalRunLoop \<Rightarrow> bool \<times> 'w InternalRunLoop" where
  "applyPendingChanges rl =
     (if pendingAdditions rl = [] \<and> pendingRemovals rl = [] then (False, rl)
      else
        (let rl1 = foldl mergeAddition rl (pendingAdditions rl);
             rl2 = foldl removeFdCallback rl1 (pendingRemovals rl)
         in (True, rl2\<lparr> pendingAdditions := [], pendingRemovals := [] \<rparr>)))"

text \<open>
  The system call \<^verbatim>\<open>poll\<close> is the environment. One call either fails (result \<open>-1\<close>,
  the array untouched) or stores into every entry the events the kernel reports for
  its descriptor and requested events, and returns the number of entries with a
  non-zero \<^verbatim>\<open>revents\<close>. What the kernel reports is the argument \<open>poll_result\<close>.
\<close>

datatype poll_result = PollFailed | PollReady "int \<Rightarrow> 16 word \<Rightarrow> 16 word"

fun poll :: "poll_result \<Rightarrow> pollfd list \<Rightarrow> int \<times> pollfd list" where
  "poll PollFailed ps = (- 1, ps)"
| "poll (PollReady k) ps =
     (let ps1 = map (\<lambda>p. p\<lparr> revents := k (fd p) (events p) \<rparr>) ps
      in (int (length (filter (\<lambda>p. revents p \<noteq> 0) ps1)), ps1))"

text \<open>The registration calls made by a callback, carried out on the run loop.\<close>

fun perform :: "'w InternalRunLoop \<Rightarrow> 'w call \<Rightarrow> 'w InternalRunLoop" where
  "perform rl (RegisterFdCallback d cb eventMask) = registerFdCallback rl d cb eventMask"
| "perform rl (UnregisterFdCallback d) = unregisterFdCallback rl d"

text \<open>
  What a list of registration calls stages: the additions, each with the \<^verbatim>\<open>pollfd\<close>
  that \<^verbatim>\<open>registerFdCallback\<close> builds, and the descriptors to remove.
\<close>

fun registered :: "'w call list \<Rightarrow> (int \<times> 'w callback \<times> pollfd) list" where
  "registered [] = []"
| "registered (RegisterFdCallback d cb eventMask # cs) =
     (d, cb, \<lparr> fd = d, events = eventMask, revents = 0 \<rparr>) # registered cs"
| "registered (UnregisterFdCallback d # cs) = registered cs"

fun unregistered :: "'w call list \<Rightarrow> int list" where
  "unregistered [] = []"
| "unregistered (RegisterFdCallback d cb eventMask # cs) = unregistered cs"
| "unregistered (UnregisterFdCallback d # cs) = d # unregistered cs"

text \<open>
  One pass of \<^verbatim>\<open>dispatchPendingEvents\<close>. The state of a pass is the run loop, the
  outside state, the local \<^verbatim>\<open>eventWasSent\<close>, and a log of the callback invocations made:
  the descriptor each was called with and what \<^verbatim>\<open>applyPendingChanges\<close> returned
  right after it, and, in \<open>performed\<close>, the registration calls the invoked callbacks
  made, in order. Both loops return a flag saying whether \<^verbatim>\<open>return true\<close> was executed
  inside them. The inner loop runs over \<^verbatim>\<open>fdReadCallbacks\<close>, the outer one over the
  indices of \<^verbatim>\<open>pfds\<close>; both vectors are only modified by a merge that reports a
  change, which ends the pass, so the entries still to be visited are those the loops
  started with and every index stays in range.
\<close>

record 'w pass =
  runLoop :: "'w InternalRunLoop"
  outside :: 'w
  invocations :: "(int \<times> bool) list"
  performed :: "'w call list"
  eventWasSent :: bool

fun callback_loop :: "int \<Rightarrow> (int \<times> 'w callback) list \<Rightarrow> 'w pass \<Rightarrow> bool \<times> 'w pass" where
  "callback_loop d [] st = (False, st)"
| "callback_loop d (fdAndCallback # rest) st =
     (if fst fdAndCallback = d
      then (case snd fdAndCallback d (outside st) of (calls, w1) \<Rightarrow>
              (case applyPendingChanges (foldl perform (runLoop st) calls) of (changed, rl1) \<Rightarrow>
                 (let st1 = st\<lparr> runLoop := rl1, outside := w1, invocations := invocations st @ [(d, changed)],
                                performed := performed st @ calls \<rparr>
                  in if changed then (True, st1)
                     else callback_loop d rest (st1\<lparr> eventWasSent := True \<rparr>))))
      else callback_loop d rest st)"

fun pfd_loop :: "nat list \<Rightarrow> 'w pass \<Rightarrow> bool \<times> 'w pass" where
  "pfd_loop [] st = (False, st)"
| "pfd_loop (i # rest) st =
     (let pfd = pfds (runLoop st) ! i
      in if revents pfd = 0 then pfd_loop rest st
         else
           (let st1 = st\<lparr> runLoop := (runLoop st)\<lparr> pfds := (pfds (runLoop st))[i := pfd\<lparr> revents := 0 \<rparr>] \<rparr> \<rparr>
            in case callback_loop (fd pfd) (fdReadCallbacks (runLoop st1)) st1 of
                 (True, st2) \<Rightarrow> (True, st2)
               | (False, st2) \<Rightarrow> pfd_loop rest st2))"

text \<open>
  \<^verbatim>\<open>poll (&pfds.front(), pfds.size(), 0)\<close> evaluates \<^verbatim>\<open>front()\<close> of the vector. On an
  empty \<^verbatim>\<open>std::vector\<close> that call has undefined behaviour; the model reports it as a
  fault instead of inventing a result.
\<close>

datatype fault = FrontOfEmptyVector

definition dispatchPendingEvents ::
  "poll_result \<Rightarrow> 'w InternalRunLoop \<Rightarrow> 'w \<Rightarrow> fault + (bool \<times> 'w pass)" where
  "dispatchPendingEvents pr rl w =
     (let rl1 = snd (applyPendingChanges rl)
      in if pfds rl1 = [] then Inl FrontOfEmptyVector
         else (case poll pr (pfds rl1) of (n, ps) \<Rightarrow>
           (let st = \<lparr> runLoop = rl1\<lparr> pfds := ps \<rparr>, outside = w, invocations = [], performed = [], eventWasSent = False \<rparr>
            in if n = 0 then Inr (False, st)
               else (case pfd_loop [0 ..< length ps] st of
                       (True, st1) \<Rightarrow> Inr (True, st1)
                     | (False, st1) \<Rightarrow> Inr (eventWasSent st1, st1)))))"

definition sleepUntilNextEvent :: "poll_result \<Rightarrow> 'w InternalRunLoop \<Rightarrow> fault + 'w InternalRunLoop" where
  "sleepUntilNextEvent pr rl =
     (if pfds rl = [] then Inl FrontOfEmptyVector
      else Inr (rl\<lparr> pfds := snd (poll pr (pfds rl)) \<rparr>))"

section \<open>The message manager's platform functions\<close>

definition postMessageToSystemQueue ::
  "'m InternalMessageQueue option \<Rightarrow> 'm \<Rightarrow> bool \<times> 'm InternalMessageQueue option" where
  \<comment> \<open>The first argument is the queue singleton as \<^verbatim>\<open>getInstanceWithoutCreating\<close> sees it.\<close>
  "postMessageToSystemQueue inst message =
     (case inst of
        Some q \<Rightarrow> (True, Some (postMessage q message))
      | None \<Rightarrow> (False, None))"

text \<open>
  The process state the dispatch driver works on: the flag set by the signal handler,
  the run-loop singleton, the outside state, and counters for the calls made to
  \<^verbatim>\<open>JUCEApplicationBase::quit\<close>, to \<^verbatim>\<open>poll\<close> and for the iterations of the driver's loop,
  with the log of all callback invocations.
\<close>

record 'w process =
  keyboardBreakOccurred :: bool
  runLoopInstance :: "'w InternalRunLoop option"
  outsideWorld :: 'w
  quitRequests :: nat
  pollCalls :: nat
  iterations :: nat
  dispatched :: "(int \<times> bool) list"

definition SIGINT :: int where
  "SIGINT = 2"

definition keyboardBreakSignalHandler :: "'w process \<Rightarrow> int \<Rightarrow> 'w process" where
  "keyboardBreakSignalHandler st sig =
     (if sig = SIGINT then st\<lparr> keyboardBreakOccurred := True \<rparr> else st)"

definition quit :: "'w process \<Rightarrow> 'w process" where
  \<comment> \<open>Modelled from the spec: \<^verbatim>\<open>JUCEApplicationBase::quit\<close> is defined outside the file; it
      requests application termination and leaves the singletons alone.\<close>
  "quit st = st\<lparr> quitRequests := Suc (quitRequests st) \<rparr>"

text \<open>
  \<^verbatim>\<open>dispatchNextMessageOnSystemQueue\<close>. The loop \<^verbatim>\<open>for (;;)\<close> may run forever, so not
  returning is the value \<open>None\<close>. The environment is given by \<open>os\<close>, the kernel's
  answer to the \<open>n\<close>-th call of \<^verbatim>\<open>poll\<close>, and \<open>sigs\<close>, the signals delivered to the
  handler just before the \<open>n\<close>-th iteration.
\<close>

partial_function (option) dispatchNextMessageOnSystemQueue ::
  "(nat \<Rightarrow> poll_result) \<Rightarrow> (nat \<Rightarrow> int list) \<Rightarrow> bool \<Rightarrow> 'w process \<Rightarrow> (fault + bool \<times> 'w process) option"
where
  "dispatchNextMessageOnSystemQueue os sigs returnIfNoPendingMessages st =
     (let st0 = (foldl keyboardBreakSignalHandler st (sigs (iterations st)))\<lparr> iterations := Suc (iterations st) \<rparr>;
          st1 = (if keyboardBreakOccurred st0 then quit st0 else st0)
      in case runLoopInstance st1 of
           None \<Rightarrow> dispatchNextMessageOnSystemQueue os sigs returnIfNoPendingMessages st1
         | Some rl \<Rightarrow>
             (case dispatchPendingEvents (os (pollCalls st1)) rl (outsideWorld st1) of
                Inl f \<Rightarrow> Some (Inl f)
              | Inr (r, ps) \<Rightarrow>
                  (let st2 = st1\<lparr> runLoopInstance := Some (runLoop ps), outsideWorld := outside ps,
                                  pollCalls := Suc (pollCalls st1),
                                  dispatched := dispatched st1 @ invocations ps \<rparr>
                   in if r then Some (Inr (True, st2))
                      else if returnIfNoPendingMessages then Some (Inr (False, st2))
                      else (case sleepUntilNextEvent (os (pollCalls st2)) (runLoop ps) of
                              Inl f \<Rightarrow> Some (Inl f)
                            | Inr rl2 \<Rightarrow>
                                dispatchNextMessageOnSystemQueue os sigs returnIfNoPendingMessages
                                  (st2\<lparr> runLoopInstance := Some rl2, pollCalls := Suc (pollCalls st2) \<rparr>)))))"


section \<open>Predicates used in the properties\<close>

text \<open>
  The run loop is consistent when its two vectors list the same descriptors in the same
  order and every staged addition carries a \<^verbatim>\<open>pollfd\<close> for its own descriptor.
\<close>

definition consistent :: "'w InternalRunLoop \<Rightarrow> bool" where
  "consistent rl \<longleftrightarrow>
     map fst (fdReadCallbacks rl) = map fd (pfds rl) \<and>
     list_all (\<lambda>addition. fd (snd (snd addition)) = fst addition) (pendingAdditions rl)"

text \<open>
  Every callback registered for descriptor \<open>D\<close> in the list calls
  \<^verbatim>\<open>unregisterFdCallback (D)\<close> whenever it is invoked for \<open>D\<close>.
\<close>

definition self_unregistering :: "int \<Rightarrow> (int \<times> 'w callback) list \<Rightarrow> bool" where
  "self_unregistering D cbs \<longleftrightarrow>
     (\<forall>c\<in>set cbs. fst c = D \<longrightarrow> (\<forall>w. UnregisterFdCallback D \<in> set (fst (snd c D w))))"

text \<open>
  The two states a pass can be in. While no merge has reported a change, nothing is
  staged, every logged invocation has the flag \<open>False\<close> and \<^verbatim>\<open>eventWasSent\<close> says
  whether a callback ran. Once a merge has reported a change the pass has ended: the
  last logged invocation has the flag \<open>True\<close>, the earlier ones \<open>False\<close>.
\<close>

definition pending_empty :: "'w InternalRunLoop \<Rightarrow> bool" where
  "pending_empty rl \<longleftrightarrow> pendingAdditions rl = [] \<and> pendingRemovals rl = []"

definition undisturbed :: "'w pass \<Rightarrow> bool" where
  "undisturbed st \<longleftrightarrow>
     pending_empty (runLoop st) \<and> list_all (\<lambda>e. \<not> snd e) (invocations st) \<and>
     eventWasSent st = (invocations st \<noteq> [])"

definition aborted :: "'w pass \<Rightarrow> bool" where
  "aborted st \<longleftrightarrow>
     pending_empty (runLoop st) \<and> invocations st \<noteq> [] \<and> snd (last (invocations st)) \<and>
     list_all (\<lambda>e. \<not> snd e) (butlast (invocations st))"


section \<open>Properties of the message queue\<close>

lemma queue_postMessage: "queue (postMessage q m) = queue q @ [m]"
  by (simp add: postMessage_def Let_def)

lemma queue_foldl_postMessage: "queue (foldl postMessage q xs) = queue q @ xs"
  by (induction xs arbitrary: q) (simp_all add: queue_postMessage)

lemma popNextMessage_Cons:
  "queue q = x # rest \<Longrightarrow> fst (popNextMessage q) = Some x \<and> queue (snd (popNextMessage q)) = rest"
  by (simp add: popNextMessage_def removeAndReturn0_def Let_def)

lemma popNextMessage_Nil:
  "queue q = [] \<Longrightarrow> fst (popNextMessage q) = None \<and> queue (snd (popNextMessage q)) = []"
  by (simp add: popNextMessage_def removeAndReturn0_def Let_def)

lemma run_calls_fifo:
  "returned (fst (run_calls cs q)) @ queue (snd (run_calls cs q)) = queue q @ posted cs"
proof (induction cs arbitrary: q)
  case Nil
  show ?case by simp
next
  case (Cons c cs)
  show ?case
  proof (cases c)
    case (Post m)
    with Cons [of "postMessage q m"] show ?thesis by (simp add: queue_postMessage)
  next
    case Pop
    obtain r q1 where p: "popNextMessage q = (r, q1)" by (cases "popNextMessage q")
    obtain rs q2 where rc: "run_calls cs q1 = (rs, q2)" by (cases "run_calls cs q1")
    from Cons [of q1] rc
    have ih: "returned rs @ queue q2 = queue q1 @ posted cs" by simp
    show ?thesis
    proof (cases "queue q")
      case Nil
      with popNextMessage_Nil [of q] p have "r = None" "queue q1 = []" by simp_all
      with ih p rc Nil Pop show ?thesis by simp
    next
      case (Cons x rest)
      with popNextMessage_Cons [of q x rest] p have "r = Some x" "queue q1 = rest" by simp_all
      with ih p rc Cons Pop show ?thesis by simp
    qed
  qed
qed

lemma run_calls_append:
  "run_calls (cs @ ds) q =
     (case run_calls cs q of (rs, q1) \<Rightarrow> (case run_calls ds q1 of (ss, q2) \<Rightarrow> (rs @ ss, q2)))"
  by (induction cs q rule: run_calls.induct) (simp_all split: prod.splits)

lemma run_calls_posts: "run_calls (map Post xs) q = ([], foldl postMessage q xs)"
  by (induction xs arbitrary: q) simp_all

lemma run_calls_pops:
  "queue q = xs @ ys \<Longrightarrow>
   fst (run_calls (replicate (length xs) Pop) q) = map Some xs \<and>
   queue (snd (run_calls (replicate (length xs) Pop) q)) = ys"
proof (induction xs arbitrary: q)
  case Nil
  then show ?case by simp
next
  case (Cons x xs)
  obtain r q1 where pq: "popNextMessage q = (r, q1)" by (cases "popNextMessage q")
  from Cons.prems popNextMessage_Cons [of q x "xs @ ys"] pq
  have p: "r = Some x" "queue q1 = xs @ ys" by simp_all
  obtain rs q2 where rc: "run_calls (replicate (length xs) Pop) q1 = (rs, q2)"
    by (cases "run_calls (replicate (length xs) Pop) q1")
  from Cons.IH [OF p(2)] p(1) pq rc show ?case by simp
qed

lemma bytesInSocket_postMessage:
  "bytesInSocket (postMessage q m) =
     (if bytesInSocket q < 128 then bytesInSocket q + 1 else bytesInSocket q)"
  by (simp add: postMessage_def maxBytesInSocketQueue_def Let_def)

lemma bytesInSocket_popNextMessage:
  "bytesInSocket (snd (popNextMessage q)) =
     (if bytesInSocket q > 0 then bytesInSocket q - 1 else bytesInSocket q)"
  by (simp add: popNextMessage_def Let_def split: prod.splits)

lemma run_calls_bytes:
  "0 \<le> bytesInSocket q \<Longrightarrow> bytesInSocket q \<le> 128 \<Longrightarrow>
   0 \<le> bytesInSocket (snd (run_calls cs q)) \<and> bytesInSocket (snd (run_calls cs q)) \<le> 128"
proof (induction cs arbitrary: q)
  case Nil
  then show ?case by simp
next
  case (Cons c cs)
  show ?case
  proof (cases c)
    case (Post m)
    from Cons.prems have "0 \<le> bytesInSocket (postMessage q m)" "bytesInSocket (postMessage q m) \<le> 128"
      by (simp_all add: bytesInSocket_postMessage)
    from Cons.IH [OF this] Post show ?thesis by simp
  next
    case Pop
    obtain r q1 where p: "popNextMessage q = (r, q1)" by (cases "popNextMessage q")
    with bytesInSocket_popNextMessage [of q] Cons.prems
    have "0 \<le> bytesInSocket q1" "bytesInSocket q1 \<le> 128" by (simp_all split: if_splits)
    from Cons.IH [OF this] p Pop show ?thesis by (cases "run_calls cs q1") simp
  qed
qed

lemma queue_popNextMessage: "queue (snd (popNextMessage q)) = tl (queue q)"
  by (cases "queue q") (simp_all add: popNextMessage_def removeAndReturn0_def Let_def)

lemma readCallback_empty:
  "queue q = [] \<Longrightarrow> readCallback mc (q, invoked, reported) = Some (Inr (snd (popNextMessage q), invoked, reported))"
proof -
  assume e: "queue q = []"
  obtain r q1 where p: "popNextMessage q = (r, q1)" by (cases "popNextMessage q")
  with popNextMessage_Nil [OF e] have "r = None" by simp
  with p show ?thesis by (subst readCallback.simps) simp
qed

lemma readCallback_step:
  assumes "queue q = m # rest"
  shows "readCallback mc (q, invoked, reported) =
           readCallback mc (foldl postMessage (snd (popNextMessage q)) (fst (mc m)),
                            invoked @ [m], reported @ failures mc [m])"
proof -
  obtain r q1 where p: "popNextMessage q = (r, q1)" by (cases "popNextMessage q")
  with popNextMessage_Cons [OF assms] have r: "r = Some m" by simp
  obtain posts raised where b: "mc m = (posts, raised)" by (cases "mc m")
  show ?thesis
    by (subst readCallback.simps, cases raised)
       (simp_all add: p r b JUCE_CATCH_EXCEPTION_def Let_def)
qed

lemma failures_append: "failures mc (xs @ ys) = failures mc xs @ failures mc ys"
  by (induction xs) (simp_all split: option.splits)

lemma readCallback_quiet:
  "\<forall>m\<in>set (queue q). fst (mc m) = [] \<Longrightarrow>
   readCallback mc (q, invoked, reported) =
     Some (Inr (((snd \<circ> popNextMessage) ^^ Suc (length (queue q))) q,
                invoked @ queue q, reported @ failures mc (queue q)))"
proof (induction "queue q" arbitrary: q invoked reported)
  case Nil
  then show ?case using readCallback_empty [of q mc invoked reported] by simp
next
  case (Cons m rest)
  from Cons.hyps(2) have q: "queue q = m # rest" by simp
  let ?q1 = "snd (popNextMessage q)"
  from popNextMessage_Cons [OF q] have q1: "rest = queue ?q1" by simp
  from Cons.prems q have m: "fst (mc m) = []" by simp
  from Cons.prems q q1 have rest: "\<forall>m\<in>set (queue ?q1). fst (mc m) = []" by simp
  have "readCallback mc (q, invoked, reported) =
          readCallback mc (?q1, invoked @ [m], reported @ failures mc [m])"
    using readCallback_step [OF q, of mc invoked reported] m by simp
  also have "\<dots> = Some (Inr (((snd \<circ> popNextMessage) ^^ Suc (length (queue ?q1))) ?q1,
                (invoked @ [m]) @ queue ?q1, (reported @ failures mc [m]) @ failures mc (queue ?q1)))"
    by (rule Cons.hyps(1) [OF q1 rest])
  also have "((snd \<circ> popNextMessage) ^^ Suc (length (queue ?q1))) ?q1 =
             ((snd \<circ> popNextMessage) ^^ Suc (length (queue q))) q"
    using q q1 by (simp add: funpow_swap1)
  finally show ?case using q q1 failures_append [of mc "[m]" rest] by simp
qed

lemma bytes_foldl_post:
  "0 \<le> bytesInSocket q \<Longrightarrow> bytesInSocket q \<le> 128 \<Longrightarrow>
   bytesInSocket (foldl postMessage q xs) = min 128 (bytesInSocket q + int (length xs))"
proof (induction xs arbitrary: q)
  case Nil then show ?case by simp
next
  case (Cons x xs)
  from Cons.prems have "0 \<le> bytesInSocket (postMessage q x)" "bytesInSocket (postMessage q x) \<le> 128"
    by (simp_all add: bytesInSocket_postMessage)
  from Cons.IH [OF this] Cons.prems show ?case by (auto simp: bytesInSocket_postMessage min_def)
qed

lemma written_postMessage:
  "bytesWritten (postMessage q m) = (if bytesInSocket q < 128 then Suc (bytesWritten q) else bytesWritten q)"
  by (simp add: postMessage_def maxBytesInSocketQueue_def Let_def)

lemma written_foldl_post:
  "0 \<le> bytesInSocket q \<Longrightarrow> bytesInSocket q \<le> 128 \<Longrightarrow>
   int (bytesWritten (foldl postMessage q xs)) = int (bytesWritten q) + min (128 - bytesInSocket q) (int (length xs))"
proof (induction xs arbitrary: q)
  case Nil then show ?case by simp
next
  case (Cons x xs)
  from Cons.prems have "0 \<le> bytesInSocket (postMessage q x)" "bytesInSocket (postMessage q x) \<le> 128"
    by (simp_all add: bytesInSocket_postMessage)
  from Cons.IH [OF this] Cons.prems show ?case
    by (auto simp: bytesInSocket_postMessage written_postMessage min_def)
qed

lemma bytes_pops:
  "0 \<le> bytesInSocket q \<Longrightarrow>
   bytesInSocket (((snd \<circ> popNextMessage) ^^ n) q) = max 0 (bytesInSocket q - int n)"
proof (induction n)
  case 0 then show ?case by simp
next
  case (Suc n)
  then show ?case by (simp add: bytesInSocket_popNextMessage)
qed

lemma queue_pops:
  "queue (((snd \<circ> popNextMessage) ^^ n) q) = drop n (queue q)"
proof (induction n)
  case 0 then show ?case by simp
next
  case (Suc n)
  then show ?case by (simp add: queue_popNextMessage drop_Suc tl_drop)
qed

text \<open>
  C1. Messages leave the queue in the order in which they were posted. For every
  sequence of \<^verbatim>\<open>postMessage\<close> and \<^verbatim>\<open>popNextMessage\<close> calls on a new queue, the messages
  returned by the pops so far, followed by the messages still queued, are exactly the
  messages posted, in posting order. In particular, after posting \<open>xs\<close>, as many pops
  as there are messages return the messages of \<open>xs\<close> one by one in order, and the next
  pop reports the queue empty.
\<close>

theorem post_drain_fifo:
  "returned (fst (run_calls cs newQueue)) @ queue (snd (run_calls cs newQueue)) = posted cs \<and>
   fst (run_calls (map Post xs @ replicate (length xs) Pop @ [Pop]) newQueue) = map Some xs @ [None]"
proof
  show "returned (fst (run_calls cs newQueue)) @ queue (snd (run_calls cs newQueue)) = posted cs"
    using run_calls_fifo [of cs newQueue] by (simp add: newQueue_def)
next
  let ?q = "foldl postMessage newQueue xs"
  have q: "queue ?q = xs @ []" by (simp add: queue_foldl_postMessage newQueue_def)
  note a = run_calls_pops [OF q]
  obtain rs q1 where r: "run_calls (replicate (length xs) Pop) ?q = (rs, q1)"
    by (cases "run_calls (replicate (length xs) Pop) ?q")
  with a have rs: "rs = map Some xs" "queue q1 = []" by simp_all
  obtain r1 q2 where pq: "popNextMessage q1 = (r1, q2)" by (cases "popNextMessage q1")
  with popNextMessage_Nil [OF rs(2)] have "r1 = None" by simp
  with r rs pq
  show "fst (run_calls (map Post xs @ replicate (length xs) Pop @ [Pop]) newQueue) = map Some xs @ [None]"
    by (simp add: run_calls_append run_calls_posts split: prod.splits)
qed

text \<open>
  C5. The wakeup-byte counter stays between 0 and the budget of 128. A post increments
  it, and writes a byte, only when it is below 128; a pop decrements it only when it is
  positive. Hence the bounds are preserved by every sequence of posts and pops, and
  they hold after every sequence of calls on a new queue.
\<close>

theorem bytesInSocket_within_budget:
  "(0 \<le> bytesInSocket q \<and> bytesInSocket q \<le> maxBytesInSocketQueue \<longrightarrow>
      0 \<le> bytesInSocket (snd (run_calls cs q)) \<and>
      bytesInSocket (snd (run_calls cs q)) \<le> maxBytesInSocketQueue) \<and>
   0 \<le> bytesInSocket (snd (run_calls cs newQueue)) \<and>
   bytesInSocket (snd (run_calls cs newQueue)) \<le> maxBytesInSocketQueue \<and>
   bytesInSocket (postMessage q m) =
     (if bytesInSocket q < maxBytesInSocketQueue then bytesInSocket q + 1 else bytesInSocket q) \<and>
   bytesWritten (postMessage q m) =
     (if bytesInSocket q < maxBytesInSocketQueue then Suc (bytesWritten q) else bytesWritten q) \<and>
   bytesInSocket (snd (popNextMessage q)) =
     (if bytesInSocket q > 0 then bytesInSocket q - 1 else bytesInSocket q)"
  using run_calls_bytes [of q cs] run_calls_bytes [of newQueue cs]
        bytesInSocket_postMessage [of q m] written_postMessage [of q m]
        bytesInSocket_popNextMessage [of q]
  by (simp add: maxBytesInSocketQueue_def newQueue_def)

theorem bytesInSocket_within_budget_witness:
  "0 \<le> bytesInSocket (newQueue :: nat InternalMessageQueue) \<and>
   bytesInSocket (newQueue :: nat InternalMessageQueue) \<le> maxBytesInSocketQueue \<and>
   0 \<le> bytesInSocket (snd (run_calls [Post (1::nat), Pop, Pop, Post 2] newQueue)) \<and>
   bytesInSocket (snd (run_calls [Post (1::nat), Pop, Pop, Post 2] newQueue)) \<le> maxBytesInSocketQueue"
  using bytesInSocket_within_budget [of "newQueue :: nat InternalMessageQueue" "[Post 1, Pop, Pop, Post 2]" 0]
  by (simp add: newQueue_def maxBytesInSocketQueue_def)

lemma posted_by_simps:
  "posted_by mc [] = []"
  "posted_by mc (m # ms) = fst (mc m) @ posted_by mc ms"
  "posted_by mc (as @ bs) = posted_by mc as @ posted_by mc bs"
  by (simp_all add: posted_by_def)

lemma posted_by_funpow_Nil: "(posted_by mc ^^ k) [] = []"
  by (induction k) (simp_all add: posted_by_simps)

lemma posted_by_funpow_append:
  "(posted_by mc ^^ k) (as @ bs) = (posted_by mc ^^ k) as @ (posted_by mc ^^ k) bs"
  by (induction k) (simp_all add: posted_by_simps)

lemma readCallback_invokes_queue:
  "queue q = ms @ acc \<Longrightarrow>
   readCallback mc (q, invoked, reported) =
     readCallback mc (after_invoking mc ms q, invoked @ ms, reported @ failures mc ms) \<and>
   queue (after_invoking mc ms q) = acc @ posted_by mc ms"
proof (induction ms arbitrary: q invoked reported acc)
  case Nil
  then show ?case by (simp add: posted_by_simps)
next
  case (Cons m ms)
  let ?q1 = "foldl postMessage (snd (popNextMessage q)) (fst (mc m))"
  from Cons.prems have q: "queue q = m # (ms @ acc)" by simp
  from popNextMessage_Cons [OF q] have q1: "queue ?q1 = ms @ (acc @ fst (mc m))"
    by (simp add: queue_foldl_postMessage)
  from Cons.IH [OF q1, of "invoked @ [m]" "reported @ failures mc [m]"]
       readCallback_step [OF q, of mc invoked reported]
       failures_append [of mc "[m]" ms]
  show ?case by (simp add: posted_by_simps)
qed

lemma readCallback_returns_if_posting_dies_out:
  "(posted_by mc ^^ k) (queue q) = [] \<Longrightarrow> \<exists>y. readCallback mc (q, invoked, reported) = Some y"
proof (induction k arbitrary: q invoked reported)
  case 0
  then show ?case using readCallback_empty [of q mc invoked reported] by simp
next
  case (Suc k)
  let ?q1 = "after_invoking mc (queue q) q"
  from readCallback_invokes_queue [of q "queue q" "[]" mc invoked reported]
  have eq: "readCallback mc (q, invoked, reported) =
              readCallback mc (?q1, invoked @ queue q, reported @ failures mc (queue q))"
    and q1: "queue ?q1 = posted_by mc (queue q)" by simp_all
  from Suc.prems q1 have "(posted_by mc ^^ k) (queue ?q1) = []" by (simp add: funpow_swap1)
  from Suc.IH [OF this] eq show ?case by simp
qed

lemma readCallback_returns_only_if_posting_dies_out:
  assumes "readCallback mc st = Some y"
  shows "\<exists>k. (posted_by mc ^^ k) (queue (fst st)) = []"
proof (rule readCallback.raw_induct
         [where P = "\<lambda>mc st y. \<exists>k. (posted_by mc ^^ k) (queue (fst st)) = []", OF _ assms], goal_cases)
  case (1 loop mc st y)
  obtain q invoked reported where st: "st = (q, invoked, reported)" by (cases st)
  show ?case
  proof (cases "queue q")
    case Nil
    then have "(posted_by mc ^^ 0) (queue (fst st)) = []" using st by simp
    then show ?thesis by blast
  next
    case (Cons m rest)
    obtain r q1 where p: "popNextMessage q = (r, q1)" by (cases "popNextMessage q")
    with popNextMessage_Cons [OF Cons] have r: "r = Some m" and q1: "queue q1 = rest" by simp_all
    obtain posts raised where b: "mc m = (posts, raised)" by (cases "mc m")
    from 1(2) st p r b
    have "loop mc (foldl postMessage q1 posts, invoked @ [m],
                   reported @ snd (JUCE_CATCH_EXCEPTION raised)) = Some y"
      by (cases raised) (simp_all add: JUCE_CATCH_EXCEPTION_def Let_def)
    from 1(1) [OF this] q1 obtain k where k: "(posted_by mc ^^ k) (rest @ posts) = []"
      by (auto simp: queue_foldl_postMessage)
    then have kr: "(posted_by mc ^^ k) rest = []" and kp: "(posted_by mc ^^ k) posts = []"
      by (simp_all add: posted_by_funpow_append)
    have "(posted_by mc ^^ Suc k) (m # rest) = (posted_by mc ^^ k) (posts @ posted_by mc rest)"
      using b by (simp add: funpow_swap1 posted_by_simps)
    also have "\<dots> = (posted_by mc ^^ k) posts @ posted_by mc ((posted_by mc ^^ k) rest)"
      by (simp add: posted_by_funpow_append funpow_swap1)
    also have "\<dots> = []" using kr kp by (simp add: posted_by_simps)
    finally show ?thesis using st Cons by (intro exI [of _ "Suc k"]) simp
  qed
qed

lemma readCallback_result:
  assumes "readCallback mc st = Some y"
  shows "\<exists>q' more. y = Inr (q', fst (snd st) @ queue (fst st) @ more,
                              snd (snd st) @ failures mc (queue (fst st) @ more)) \<and> queue q' = []"
proof (rule readCallback.raw_induct
         [where P = "\<lambda>mc st y. \<exists>q' more. y = Inr (q', fst (snd st) @ queue (fst st) @ more,
                              snd (snd st) @ failures mc (queue (fst st) @ more)) \<and> queue q' = []",
          OF _ assms], goal_cases)
  case (1 loop mc st y)
  obtain q invoked reported where st: "st = (q, invoked, reported)" by (cases st)
  obtain r q1 where p: "popNextMessage q = (r, q1)" by (cases "popNextMessage q")
  show ?case
  proof (cases "queue q")
    case Nil
    with popNextMessage_Nil [OF Nil] p have "r = None" "queue q1 = []" by simp_all
    with 1(2) st p have "y = Inr (q1, invoked, reported)" by auto
    with st Nil \<open>queue q1 = []\<close> show ?thesis
      by (intro exI [of _ q1] exI [of _ "[]"]) simp
  next
    case (Cons m rest)
    with popNextMessage_Cons [OF Cons] p have r: "r = Some m" and q1: "queue q1 = rest" by simp_all
    obtain posts raised where b: "mc m = (posts, raised)" by (cases "mc m")
    have rep: "snd (JUCE_CATCH_EXCEPTION raised) = failures mc [m]"
      using b by (cases raised) (simp_all add: JUCE_CATCH_EXCEPTION_def)
    from 1(2) st p r b
    have "loop mc (foldl postMessage q1 posts, invoked @ [m],
                   reported @ snd (JUCE_CATCH_EXCEPTION raised)) = Some y"
      by (cases raised) (simp_all add: JUCE_CATCH_EXCEPTION_def Let_def)
    from 1(1) [OF this] q1 rep obtain q' more where
      y: "y = Inr (q', (invoked @ [m]) @ (rest @ posts) @ more,
                   (reported @ failures mc [m]) @ failures mc ((rest @ posts) @ more))"
      and e: "queue q' = []"
      by (auto simp: queue_foldl_postMessage)
    have "failures mc [m] @ failures mc ((rest @ posts) @ more) = failures mc ((m # rest) @ posts @ more)"
      using failures_append [of mc "[m]" "(rest @ posts) @ more"] by simp
    with y e st Cons show ?thesis
      by (intro exI [of _ q'] exI [of _ "posts @ more"]) simp
  qed
qed

lemma readCallback_rounds:
  "(posted_by mc ^^ k) (queue q) = [] \<Longrightarrow>
   \<exists>q'. readCallback mc (q, invoked, reported) =
          Some (Inr (q', invoked @ rounds mc k (queue q),
                     reported @ failures mc (rounds mc k (queue q)))) \<and>
        queue q' = []"
proof (induction k arbitrary: q invoked reported)
  case 0
  then have e: "queue q = []" by simp
  from readCallback_empty [OF e, of mc invoked reported] popNextMessage_Nil [OF e]
  show ?case by simp
next
  case (Suc k)
  let ?q1 = "after_invoking mc (queue q) q"
  from readCallback_invokes_queue [of q "queue q" "[]" mc invoked reported]
  have eq: "readCallback mc (q, invoked, reported) =
              readCallback mc (?q1, invoked @ queue q, reported @ failures mc (queue q))"
    and q1: "queue ?q1 = posted_by mc (queue q)" by simp_all
  from Suc.prems q1 have "(posted_by mc ^^ k) (queue ?q1) = []" by (simp add: funpow_swap1)
  from Suc.IH [OF this, of "invoked @ queue q" "reported @ failures mc (queue q)"]
  obtain q' where r: "readCallback mc (?q1, invoked @ queue q, reported @ failures mc (queue q)) =
          Some (Inr (q', (invoked @ queue q) @ rounds mc k (queue ?q1),
                     (reported @ failures mc (queue q)) @ failures mc (rounds mc k (queue ?q1))))"
    and e: "queue q' = []" by blast
  from eq r q1 e failures_append [of mc "queue q" "rounds mc k (posted_by mc (queue q))"]
  show ?case by (intro exI [of _ q']) simp
qed

lemma concat_replicate_single: "concat (replicate n [x]) = replicate n x"
  by (induction n) simp_all

lemma reachable_bytes:
  "0 \<le> bytesInSocket (snd (run_calls cs newQueue)) \<and> bytesInSocket (snd (run_calls cs newQueue)) \<le> 128"
  using run_calls_bytes [of newQueue cs] by (simp add: newQueue_def)

text \<open>
  C2. Posting more than 128 messages without a drain in between loses no message.
  The posts append all of them to the queue, whatever state the queue is in. In every
  state the queue can reach the counter then stands at 128 and at most 128 wakeup bytes
  have been written for them (exactly 128 from a new queue). The following run of the
  read callback, whatever the messages do when invoked, goes through one iteration for
  every queued message in order: it is the run continued after all of them have been
  popped and invoked, with the messages they posted now in the queue. Whenever the
  callback returns, it has invoked all the messages, in posting order before anything
  posted later, and left the queue empty; and it returns exactly when the posting dies
  out after finitely many rounds, in particular when the messages post nothing, having
  then invoked exactly the messages of those rounds. The loop pops until \<^verbatim>\<open>popNextMessage\<close> reports empty, not once per wakeup byte.
\<close>

theorem no_item_lost_beyond_budget:
  assumes "length xs > 128"
  shows "queue (foldl postMessage q xs) = queue q @ xs \<and>
         bytesInSocket (foldl postMessage (snd (run_calls cs newQueue)) xs) = 128 \<and>
         bytesWritten (foldl postMessage (snd (run_calls cs newQueue)) xs)
           \<le> bytesWritten (snd (run_calls cs newQueue)) + 128 \<and>
         bytesWritten (foldl postMessage newQueue xs) = 128 \<and>
         readCallback mc (foldl postMessage q xs, invoked, reported) =
           readCallback mc (after_invoking mc (queue q @ xs) (foldl postMessage q xs),
                            invoked @ queue q @ xs, reported @ failures mc (queue q @ xs)) \<and>
         queue (after_invoking mc (queue q @ xs) (foldl postMessage q xs)) = posted_by mc (queue q @ xs) \<and>
         (\<forall>y. readCallback mc (foldl postMessage q xs, invoked, reported) = Some y \<longrightarrow>
              (\<exists>q' more. y = Inr (q', invoked @ queue q @ xs @ more,
                                   reported @ failures mc (queue q @ xs @ more)) \<and>
                          queue q' = [])) \<and>
         ((\<exists>y. readCallback mc (foldl postMessage q xs, invoked, reported) = Some y) \<longleftrightarrow>
          (\<exists>k. (posted_by mc ^^ k) (queue q @ xs) = [])) \<and>
         (\<forall>k. (posted_by mc ^^ k) (queue q @ xs) = [] \<longrightarrow>
              (\<exists>q'. readCallback mc (foldl postMessage q xs, invoked, reported) =
                      Some (Inr (q', invoked @ rounds mc k (queue q @ xs),
                                 reported @ failures mc (rounds mc k (queue q @ xs)))) \<and>
                    queue q' = []))"
proof (intro conjI)
  let ?s = "foldl postMessage q xs"
  let ?r = "snd (run_calls cs newQueue)"
  show qs: "queue ?s = queue q @ xs" by (rule queue_foldl_postMessage)
  from reachable_bytes [of cs] have b: "0 \<le> bytesInSocket ?r" "bytesInSocket ?r \<le> 128" by simp_all
  show "bytesInSocket (foldl postMessage ?r xs) = 128"
    using bytes_foldl_post [OF b, of xs] b assms by simp
  show "bytesWritten (foldl postMessage ?r xs) \<le> bytesWritten ?r + 128"
    using written_foldl_post [OF b, of xs] b by simp
  have b0: "0 \<le> bytesInSocket (newQueue :: 'a InternalMessageQueue)"
    "bytesInSocket (newQueue :: 'a InternalMessageQueue) \<le> 128"
    by (simp_all add: newQueue_def)
  show "bytesWritten (foldl postMessage newQueue xs) = 128"
    using written_foldl_post [OF b0, of xs] assms by (simp add: newQueue_def)
  from readCallback_invokes_queue [of ?s "queue q @ xs" "[]" mc invoked reported] qs
  show "readCallback mc (?s, invoked, reported) =
           readCallback mc (after_invoking mc (queue q @ xs) ?s,
                            invoked @ queue q @ xs, reported @ failures mc (queue q @ xs))"
    and "queue (after_invoking mc (queue q @ xs) ?s) = posted_by mc (queue q @ xs)"
    by simp_all
  show "\<forall>y. readCallback mc (?s, invoked, reported) = Some y \<longrightarrow>
              (\<exists>q' more. y = Inr (q', invoked @ queue q @ xs @ more,
                                   reported @ failures mc (queue q @ xs @ more)) \<and>
                          queue q' = [])"
    using readCallback_result [of mc "(?s, invoked, reported)"] qs by simp
  show "(\<exists>y. readCallback mc (?s, invoked, reported) = Some y) \<longleftrightarrow>
          (\<exists>k. (posted_by mc ^^ k) (queue q @ xs) = [])"
  proof
    assume "\<exists>y. readCallback mc (?s, invoked, reported) = Some y"
    then obtain y where "readCallback mc (?s, invoked, reported) = Some y" ..
    from readCallback_returns_only_if_posting_dies_out [OF this] qs
    show "\<exists>k. (posted_by mc ^^ k) (queue q @ xs) = []" by simp
  next
    assume "\<exists>k. (posted_by mc ^^ k) (queue q @ xs) = []"
    then obtain k where "(posted_by mc ^^ k) (queue ?s) = []" using qs by auto
    then show "\<exists>y. readCallback mc (?s, invoked, reported) = Some y"
      by (rule readCallback_returns_if_posting_dies_out)
  qed
  show "\<forall>k. (posted_by mc ^^ k) (queue q @ xs) = [] \<longrightarrow>
              (\<exists>q'. readCallback mc (?s, invoked, reported) =
                      Some (Inr (q', invoked @ rounds mc k (queue q @ xs),
                                 reported @ failures mc (rounds mc k (queue q @ xs)))) \<and>
                    queue q' = [])"
    using readCallback_rounds [where mc = mc and q = ?s and invoked = invoked and reported = reported] qs
    by simp
qed

theorem no_item_lost_beyond_budget_witness:
  "length (replicate 129 (0::nat)) > 128 \<and>
   bytesWritten (foldl postMessage newQueue (replicate 129 (0::nat))) = 128 \<and>
   bytesInSocket (foldl postMessage newQueue (replicate 129 (0::nat))) = 128 \<and>
   (\<exists>q'.
      readCallback (\<lambda>m. (if m = 0 then [1] else [], None :: string option))
        (foldl postMessage newQueue (replicate 129 (0::nat)), [], [])
      = Some (Inr (q', replicate 129 0 @ replicate 129 1, [])) \<and> queue q' = [])"
proof -
  let ?xs = "replicate 129 (0::nat)"
  let ?mc = "\<lambda>m::nat. (if m = 0 then [1::nat] else [], None :: string option)"
  have h: "length ?xs > 128" by simp
  note t = no_item_lost_beyond_budget
             [where xs = ?xs and mc = ?mc and q = newQueue and invoked = "[]" and reported = "[]"
                and cs = "[]", OF h]
  have p1: "posted_by ?mc ?xs = replicate 129 1"
    by (simp add: posted_by_def concat_replicate_single)
  have p2: "posted_by ?mc (replicate 129 (1::nat)) = []" by (simp add: posted_by_def)
  have k: "(posted_by ?mc ^^ 2) (queue (newQueue :: nat InternalMessageQueue) @ ?xs) = []"
    using p1 p2 by (simp add: newQueue_def numeral_2_eq_2)
  have r: "rounds ?mc 2 (queue (newQueue :: nat InternalMessageQueue) @ ?xs) = ?xs @ replicate 129 1"
    using p1 p2 by (simp add: newQueue_def numeral_2_eq_2)
  have f: "failures ?mc zs = []" for zs by (induction zs) simp_all
  from t have "\<forall>k. (posted_by ?mc ^^ k) (queue (newQueue :: nat InternalMessageQueue) @ ?xs) = [] \<longrightarrow>
              (\<exists>q'. readCallback ?mc (foldl postMessage newQueue ?xs, [], []) =
                      Some (Inr (q', [] @ rounds ?mc k (queue (newQueue :: nat InternalMessageQueue) @ ?xs),
                                 [] @ failures ?mc (rounds ?mc k (queue (newQueue :: nat InternalMessageQueue) @ ?xs)))) \<and>
                    queue q' = [])"
    by (elim conjE)
  from this [THEN spec, THEN mp, OF k] obtain q' where
    y: "readCallback ?mc (foldl postMessage newQueue ?xs, [], []) =
          Some (Inr (q', [] @ rounds ?mc 2 (queue (newQueue :: nat InternalMessageQueue) @ ?xs),
                     [] @ failures ?mc (rounds ?mc 2 (queue (newQueue :: nat InternalMessageQueue) @ ?xs))))"
    and e: "queue q' = []" by blast
  from t have w: "bytesWritten (foldl postMessage newQueue ?xs) = 128" by (elim conjE)
  from t have b: "bytesInSocket (foldl postMessage (snd (run_calls [] newQueue)) ?xs) = 128"
    by (elim conjE)
  from y e w b h show ?thesis by (simp only: r f append_Nil run_calls.simps snd_conv) simp
qed

lemma readCallback_never_raises:
  assumes "readCallback mc st = Some y"
  shows "\<exists>st'. y = Inr st'"
proof (rule readCallback.raw_induct [where P = "\<lambda>mc st y. \<exists>st'. y = Inr st'", OF _ assms], goal_cases)
  case (1 loop mc st y)
  obtain q invoked reported where st: "st = (q, invoked, reported)" by (cases st)
  obtain r q1 where p: "popNextMessage q = (r, q1)" by (cases "popNextMessage q")
  show ?case
  proof (cases r)
    case None
    with 1(2) st p show ?thesis by auto
  next
    case (Some msg)
    obtain posts raised where b: "mc msg = (posts, raised)" by (cases "mc msg")
    from 1(2) st p Some b
    have "loop mc (foldl postMessage q1 posts, invoked @ [msg],
                   reported @ snd (JUCE_CATCH_EXCEPTION raised)) = Some y"
      by (cases raised) (simp_all add: JUCE_CATCH_EXCEPTION_def Let_def)
    then show ?thesis by (rule 1(1))
  qed
qed

text \<open>
  C6. A message that raises does not stop the drain. If message \<open>A\<close> is at the head of
  the queue, \<open>B\<close> is next and invoking \<open>A\<close> raises \<open>e\<close>, then the read callback, having
  reported \<open>e\<close>, goes on with the iteration that pops and invokes \<open>B\<close>: the run from
  the given state is the run continued after both invocations, whatever the two messages
  post. Whenever the callback returns, it returns normally: no exception leaves the
  loop. When the queued messages post nothing, the callback does return, having
  invoked \<open>A\<close>, \<open>B\<close> and the rest in order and reported \<open>e\<close> first.
\<close>

theorem failing_item_does_not_stop_drain:
  assumes "queue q = A # B # rest" and "snd (mc A) = Some e"
  shows "readCallback mc (q, invoked, reported) =
           readCallback mc (foldl postMessage (snd (popNextMessage (foldl postMessage (snd (popNextMessage q)) (fst (mc A))))) (fst (mc B)),
                            invoked @ [A, B], reported @ [e] @ failures mc [B]) \<and>
         (\<forall>y. readCallback mc (q, invoked, reported) = Some y \<longrightarrow> (\<exists>st'. y = Inr st')) \<and>
         ((\<forall>m\<in>set (A # B # rest). fst (mc m) = []) \<longrightarrow>
           (\<exists>q'. readCallback mc (q, [], []) = Some (Inr (q', A # B # rest, e # failures mc (B # rest)))))"
proof (intro conjI)
  let ?q1 = "foldl postMessage (snd (popNextMessage q)) (fst (mc A))"
  from popNextMessage_Cons [OF assms(1)]
  have "queue ?q1 = B # (rest @ fst (mc A))" by (simp add: queue_foldl_postMessage)
  from readCallback_step [OF assms(1), of mc invoked reported]
       readCallback_step [OF this, of mc "invoked @ [A]" "reported @ failures mc [A]"] assms(2)
  show "readCallback mc (q, invoked, reported) =
           readCallback mc (foldl postMessage (snd (popNextMessage ?q1)) (fst (mc B)),
                            invoked @ [A, B], reported @ [e] @ failures mc [B])"
    by simp
next
  show "\<forall>y. readCallback mc (q, invoked, reported) = Some y \<longrightarrow> (\<exists>st'. y = Inr st')"
    using readCallback_never_raises [of mc "(q, invoked, reported)"] by blast
next
  show "(\<forall>m\<in>set (A # B # rest). fst (mc m) = []) \<longrightarrow>
           (\<exists>q'. readCallback mc (q, [], []) = Some (Inr (q', A # B # rest, e # failures mc (B # rest))))"
  proof
    assume "\<forall>m\<in>set (A # B # rest). fst (mc m) = []"
    with assms(1) have "\<forall>m\<in>set (queue q). fst (mc m) = []" by simp
    from readCallback_quiet [OF this, of "[]" "[]"] assms show "\<exists>q'. readCallback mc (q, [], []) = Some (Inr (q', A # B # rest, e # failures mc (B # rest)))"
      by simp
  qed
qed

theorem failing_item_does_not_stop_drain_witness:
  "\<exists>q'. readCallback (\<lambda>m. ([], if m = (1::nat) then Some ''boom'' else None))
           (foldl postMessage newQueue [1, 2, 3], [], [])
         = Some (Inr (q', [1, 2, 3], [''boom'']))"
proof -
  let ?mc = "\<lambda>m. ([] :: nat list, if m = (1::nat) then Some ''boom'' else None)"
  have a: "queue (foldl postMessage newQueue [1::nat, 2, 3]) = 1 # 2 # [3]"
    by (simp add: queue_postMessage newQueue_def)
  have b: "snd (?mc 1) = Some ''boom''" by simp
  have c: "\<forall>m\<in>set (1 # 2 # [3::nat]). fst (?mc m) = []" by simp
  have f: "failures ?mc (2 # [3]) = []" by simp
  from failing_item_does_not_stop_drain
         [where mc = ?mc and A = 1 and e = "''boom''" and invoked = "[]" and reported = "[]", OF a b] c
  have "\<exists>q'. readCallback ?mc (foldl postMessage newQueue [1, 2, 3], [], [])
              = Some (Inr (q', 1 # 2 # [3], ''boom'' # failures ?mc (2 # [3])))"
    by blast
  then show ?thesis by (simp only: f)
qed

section \<open>Properties of the run loop\<close>

lemmas run_loop_defs =
  dispatchPendingEvents_def applyPendingChanges_def registerFdCallback_def unregisterFdCallback_def
  removeFdCallback_def mergeAddition_def newRunLoop_def Let_def

lemma applyPendingChanges_changed:
  "fst (applyPendingChanges rl) \<longleftrightarrow> \<not> (pendingAdditions rl = [] \<and> pendingRemovals rl = [])"
  by (simp add: applyPendingChanges_def Let_def)

lemma applyPendingChanges_unchanged:
  "\<not> fst (applyPendingChanges rl) \<Longrightarrow> snd (applyPendingChanges rl) = rl"
  by (simp add: applyPendingChanges_def Let_def split: if_splits)

lemma applyPendingChanges_pending:
  "pendingAdditions (snd (applyPendingChanges rl)) = [] \<and>
   pendingRemovals (snd (applyPendingChanges rl)) = []"
  by (simp add: applyPendingChanges_def Let_def)

lemma perform_fields:
  "fdReadCallbacks (perform rl c) = fdReadCallbacks rl \<and> pfds (perform rl c) = pfds rl"
  by (cases c) (simp_all add: registerFdCallback_def unregisterFdCallback_def Let_def)

lemma foldl_perform_fields:
  "fdReadCallbacks (foldl perform rl cs) = fdReadCallbacks rl \<and> pfds (foldl perform rl cs) = pfds rl"
  by (induction cs arbitrary: rl) (simp_all add: perform_fields)

lemma perform_pending_nonempty:
  "\<not> (pendingAdditions (perform rl c) = [] \<and> pendingRemovals (perform rl c) = [])"
  by (cases c) (simp_all add: registerFdCallback_def unregisterFdCallback_def Let_def)

lemma perform_keeps_nonempty:
  "\<not> (pendingAdditions rl = [] \<and> pendingRemovals rl = []) \<Longrightarrow>
   \<not> (pendingAdditions (perform rl c) = [] \<and> pendingRemovals (perform rl c) = [])"
  by (cases c) (auto simp: registerFdCallback_def unregisterFdCallback_def Let_def)

lemma foldl_perform_keeps_nonempty:
  "\<not> (pendingAdditions rl = [] \<and> pendingRemovals rl = []) \<Longrightarrow>
   \<not> (pendingAdditions (foldl perform rl cs) = [] \<and> pendingRemovals (foldl perform rl cs) = [])"
proof (induction cs arbitrary: rl)
  case Nil then show ?case by simp
next
  case (Cons c cs)
  from Cons.IH [OF perform_keeps_nonempty [OF Cons.prems, of c]] show ?case by simp
qed

lemma foldl_perform_changed:
  "pendingAdditions rl = [] \<Longrightarrow> pendingRemovals rl = [] \<Longrightarrow>
   fst (applyPendingChanges (foldl perform rl cs)) \<longleftrightarrow> cs \<noteq> []"
proof (cases cs)
  case Nil
  assume "pendingAdditions rl = []" "pendingRemovals rl = []"
  with Nil show ?thesis by (simp add: applyPendingChanges_changed)
next
  case (Cons c cs')
  from foldl_perform_keeps_nonempty [OF perform_pending_nonempty [of rl c], of cs'] Cons
  show ?thesis by (simp add: applyPendingChanges_changed)
qed

lemma callback_loop_flow:
  "undisturbed st \<Longrightarrow>
   (fst (callback_loop d cbs st) \<longrightarrow> aborted (snd (callback_loop d cbs st))) \<and>
   (\<not> fst (callback_loop d cbs st) \<longrightarrow>
      undisturbed (snd (callback_loop d cbs st)) \<and>
      runLoop (snd (callback_loop d cbs st)) = runLoop st)"
proof (induction cbs arbitrary: st)
  case Nil
  then show ?case by simp
next
  case (Cons c cbs)
  show ?case
  proof (cases "fst c = d")
    case False
    with Cons show ?thesis by simp
  next
    case True
    obtain calls w1 where cb: "snd c d (outside st) = (calls, w1)" by (cases "snd c d (outside st)")
    obtain changed rl1 where ap: "applyPendingChanges (foldl perform (runLoop st) calls) = (changed, rl1)"
      by (cases "applyPendingChanges (foldl perform (runLoop st) calls)")
    let ?st1 = "st\<lparr> runLoop := rl1, outside := w1, invocations := invocations st @ [(d, changed)],
                                performed := performed st @ calls \<rparr>"
    from applyPendingChanges_pending [of "foldl perform (runLoop st) calls"] ap
    have pe: "pending_empty rl1" by (simp add: pending_empty_def)
    show ?thesis
    proof (cases changed)
      case True
      with Cons.prems pe have "aborted ?st1"
        by (simp add: aborted_def undisturbed_def)
      with True \<open>fst c = d\<close> cb ap show ?thesis by (simp add: Let_def)
    next
      case False
      with ap applyPendingChanges_unchanged [of "foldl perform (runLoop st) calls"]
      have "rl1 = foldl perform (runLoop st) calls" by simp
      moreover from Cons.prems False ap foldl_perform_changed [of "runLoop st" calls]
      have "calls = []" by (simp add: undisturbed_def pending_empty_def)
      ultimately have rl1: "rl1 = runLoop st" by simp
      let ?st2 = "?st1\<lparr> eventWasSent := True \<rparr>"
      from Cons.prems False rl1 have u: "undisturbed ?st2" by (simp add: undisturbed_def)
      from Cons.IH [OF u] rl1 False \<open>fst c = d\<close> cb ap show ?thesis by (simp add: Let_def)
    qed
  qed
qed


lemma pfd_loop_flow:
  "undisturbed st \<Longrightarrow>
   (fst (pfd_loop js st) \<longrightarrow> aborted (snd (pfd_loop js st))) \<and>
   (\<not> fst (pfd_loop js st) \<longrightarrow> undisturbed (snd (pfd_loop js st)))"
proof (induction js arbitrary: st)
  case Nil
  then show ?case by simp
next
  case (Cons i js)
  let ?pfd = "pfds (runLoop st) ! i"
  show ?case
  proof (cases "revents ?pfd = 0")
    case True
    with Cons show ?thesis by simp
  next
    case False
    let ?st1 = "st\<lparr> runLoop := (runLoop st)\<lparr> pfds := (pfds (runLoop st))[i := ?pfd\<lparr> revents := 0 \<rparr>] \<rparr> \<rparr>"
    from Cons.prems have u1: "undisturbed ?st1" by (simp add: undisturbed_def pending_empty_def)
    obtain ab st2 where cl: "callback_loop (fd ?pfd) (fdReadCallbacks (runLoop ?st1)) ?st1 = (ab, st2)"
      by (cases "callback_loop (fd ?pfd) (fdReadCallbacks (runLoop ?st1)) ?st1")
    from callback_loop_flow [OF u1, of "fd ?pfd" "fdReadCallbacks (runLoop ?st1)"] cl
    have f: "ab \<longrightarrow> aborted st2" "\<not> ab \<longrightarrow> undisturbed st2" by simp_all
    show ?thesis
    proof (cases ab)
      case True
      with f cl False show ?thesis by (simp add: Let_def)
    next
      case nab: False
      with f have "undisturbed st2" by simp
      from Cons.IH [OF this] cl False nab show ?thesis by (simp add: Let_def)
    qed
  qed
qed

lemma consistent_newRunLoop: "consistent newRunLoop"
  by (simp add: consistent_def newRunLoop_def)

lemma consistent_registerFdCallback:
  "consistent rl \<Longrightarrow> consistent (registerFdCallback rl d cb eventMask)"
  by (simp add: consistent_def registerFdCallback_def Let_def)

lemma consistent_unregisterFdCallback:
  "consistent rl \<Longrightarrow> consistent (unregisterFdCallback rl d)"
  by (simp add: consistent_def unregisterFdCallback_def)

lemma consistent_perform: "consistent rl \<Longrightarrow> consistent (perform rl c)"
  by (cases c) (simp_all add: consistent_registerFdCallback consistent_unregisterFdCallback)

lemma consistent_foldl_perform: "consistent rl \<Longrightarrow> consistent (foldl perform rl cs)"
  by (induction cs arbitrary: rl) (simp_all add: consistent_perform)

lemma foldl_mergeAddition:
  "map fst (fdReadCallbacks (foldl mergeAddition rl adds)) = map fst (fdReadCallbacks rl) @ map fst adds \<and>
   map fd (pfds (foldl mergeAddition rl adds)) = map fd (pfds rl) @ map (\<lambda>a. fd (snd (snd a))) adds \<and>
   pendingAdditions (foldl mergeAddition rl adds) = pendingAdditions rl \<and>
   pendingRemovals (foldl mergeAddition rl adds) = pendingRemovals rl"
  by (induction adds arbitrary: rl) (simp_all add: mergeAddition_def split: prod.splits)

lemma foldl_removeFdCallback:
  "map fst (fdReadCallbacks (foldl removeFdCallback rl ds)) =
     filter (\<lambda>d. d \<notin> set ds) (map fst (fdReadCallbacks rl)) \<and>
   map fd (pfds (foldl removeFdCallback rl ds)) = filter (\<lambda>d. d \<notin> set ds) (map fd (pfds rl))"
proof (induction ds arbitrary: rl)
  case Nil
  show ?case by simp
next
  case (Cons d ds)
  have "map fst (fdReadCallbacks (removeFdCallback rl d)) = filter (\<lambda>x. x \<noteq> d) (map fst (fdReadCallbacks rl))"
    and "map fd (pfds (removeFdCallback rl d)) = filter (\<lambda>x. x \<noteq> d) (map fd (pfds rl))"
    by (simp_all add: removeFdCallback_def filter_map comp_def)
  with Cons [of "removeFdCallback rl d"] show ?case
    by (simp add: conj_commute)
qed

lemma applyPendingChanges_live:
  "map fst (fdReadCallbacks (snd (applyPendingChanges rl))) =
     filter (\<lambda>d. d \<notin> set (pendingRemovals rl))
       (map fst (fdReadCallbacks rl) @ map fst (pendingAdditions rl)) \<and>
   map fd (pfds (snd (applyPendingChanges rl))) =
     filter (\<lambda>d. d \<notin> set (pendingRemovals rl))
       (map fd (pfds rl) @ map (\<lambda>a. fd (snd (snd a))) (pendingAdditions rl))"
  using foldl_removeFdCallback [of "foldl mergeAddition rl (pendingAdditions rl)" "pendingRemovals rl"]
        foldl_mergeAddition [of rl "pendingAdditions rl"]
  by (simp add: applyPendingChanges_def Let_def)

lemma consistent_applyPendingChanges:
  assumes "consistent rl"
  shows "consistent (snd (applyPendingChanges rl))"
proof -
  from assms have "map (\<lambda>a. fd (snd (snd a))) (pendingAdditions rl) = map fst (pendingAdditions rl)"
    by (simp add: consistent_def list_all_iff)
  with assms applyPendingChanges_live [of rl] applyPendingChanges_pending [of rl]
  show ?thesis by (simp add: consistent_def)
qed

lemma consistent_pfds_update:
  assumes "consistent rl" and "map fd ps = map fd (pfds rl)"
  shows "consistent (rl\<lparr> pfds := ps \<rparr>)"
  using assms by (simp add: consistent_def)

lemma poll_fds: "map fd (snd (poll pr ps)) = map fd ps"
  by (cases pr) (simp_all add: Let_def comp_def)

lemma clear_revents_fds: "map fd (ps[i := (ps ! i)\<lparr> revents := 0 \<rparr>]) = map fd ps"
proof (cases "i < length ps")
  case True
  then have "(map fd ps)[i := fd (ps ! i)] = (map fd ps)[i := map fd ps ! i]" by simp
  then show ?thesis by (simp add: map_update)
next
  case False
  then have "length ps \<le> i" by arith
  then show ?thesis by (simp add: list_update_beyond)
qed


lemma callback_loop_consistent:
  "consistent (runLoop st) \<Longrightarrow> consistent (runLoop (snd (callback_loop d cbs st)))"
proof (induction cbs arbitrary: st)
  case Nil
  then show ?case by simp
next
  case (Cons c cbs)
  show ?case
  proof (cases "fst c = d")
    case False
    with Cons show ?thesis by simp
  next
    case True
    obtain calls w1 where cb: "snd c d (outside st) = (calls, w1)" by (cases "snd c d (outside st)")
    obtain changed rl1 where ap: "applyPendingChanges (foldl perform (runLoop st) calls) = (changed, rl1)"
      by (cases "applyPendingChanges (foldl perform (runLoop st) calls)")
    from consistent_applyPendingChanges [OF consistent_foldl_perform [OF Cons.prems, of calls]] ap
    have c1: "consistent rl1" by simp
    let ?st2 = "st\<lparr> runLoop := rl1, outside := w1, invocations := invocations st @ [(d, changed)],
                    performed := performed st @ calls, eventWasSent := True \<rparr>"
    from c1 have "consistent (runLoop ?st2)" by simp
    from Cons.IH [OF this] c1 True cb ap show ?thesis by (cases changed) (simp_all add: Let_def)
  qed
qed

lemma pfd_loop_consistent:
  "consistent (runLoop st) \<Longrightarrow> consistent (runLoop (snd (pfd_loop js st)))"
proof (induction js arbitrary: st)
  case Nil
  then show ?case by simp
next
  case (Cons i js)
  let ?pfd = "pfds (runLoop st) ! i"
  show ?case
  proof (cases "revents ?pfd = 0")
    case True
    with Cons show ?thesis by simp
  next
    case False
    let ?st1 = "st\<lparr> runLoop := (runLoop st)\<lparr> pfds := (pfds (runLoop st))[i := ?pfd\<lparr> revents := 0 \<rparr>] \<rparr> \<rparr>"
    from consistent_pfds_update [OF Cons.prems clear_revents_fds]
    have c1: "consistent (runLoop ?st1)" by simp
    obtain ab st2 where cl: "callback_loop (fd ?pfd) (fdReadCallbacks (runLoop ?st1)) ?st1 = (ab, st2)"
      by (cases "callback_loop (fd ?pfd) (fdReadCallbacks (runLoop ?st1)) ?st1")
    from callback_loop_consistent [OF c1, of "fd ?pfd" "fdReadCallbacks (runLoop ?st1)"] cl
    have c2: "consistent (runLoop st2)" by simp
    from Cons.IH [OF c2] c2 cl False show ?thesis by (cases ab) (simp_all add: Let_def)
  qed
qed

lemma dispatchPendingEvents_consistent:
  assumes "consistent rl" and "dispatchPendingEvents pr rl w = Inr (r, st)"
  shows "consistent (runLoop st)"
proof -
  let ?rl1 = "snd (applyPendingChanges rl)"
  obtain n ps where p: "poll pr (pfds ?rl1) = (n, ps)" by (cases "poll pr (pfds ?rl1)")
  let ?st = "\<lparr> runLoop = ?rl1\<lparr> pfds := ps \<rparr>, outside = w, invocations = [], performed = [], eventWasSent = False \<rparr>"
  from poll_fds [of pr "pfds ?rl1"] p have "map fd ps = map fd (pfds ?rl1)" by simp
  from consistent_pfds_update [OF consistent_applyPendingChanges [OF assms(1)] this]
  have c: "consistent (runLoop ?st)" by simp
  obtain ab st1 where l: "pfd_loop [0 ..< length ps] ?st = (ab, st1)"
    by (cases "pfd_loop [0 ..< length ps] ?st")
  from pfd_loop_consistent [OF c, of "[0 ..< length ps]"] l have c1: "consistent (runLoop st1)" by simp
  from assms(2) p l c c1 show ?thesis
    by (cases ab) (auto simp: dispatchPendingEvents_def Let_def split: if_splits)
qed

lemma sleepUntilNextEvent_consistent:
  assumes "consistent rl" and "sleepUntilNextEvent pr rl = Inr rl1"
  shows "consistent rl1"
  using assms consistent_pfds_update [OF assms(1) poll_fds [of pr "pfds rl"]]
  by (auto simp: sleepUntilNextEvent_def split: if_splits)

lemma perform_removals_mono:
  "D \<in> set (pendingRemovals rl) \<Longrightarrow> D \<in> set (pendingRemovals (perform rl c))"
  by (cases c) (simp_all add: registerFdCallback_def unregisterFdCallback_def Let_def)

lemma foldl_perform_removals_mono:
  "D \<in> set (pendingRemovals rl) \<Longrightarrow> D \<in> set (pendingRemovals (foldl perform rl cs))"
  by (induction cs arbitrary: rl) (simp_all add: perform_removals_mono)

lemma foldl_perform_removals:
  "UnregisterFdCallback D \<in> set cs \<Longrightarrow> D \<in> set (pendingRemovals (foldl perform rl cs))"
proof (induction cs arbitrary: rl)
  case Nil
  then show ?case by simp
next
  case (Cons c cs)
  show ?case
  proof (cases "c = UnregisterFdCallback D")
    case True
    then have "D \<in> set (pendingRemovals (perform rl c))" by (simp add: unregisterFdCallback_def)
    from foldl_perform_removals_mono [OF this, of cs] show ?thesis by simp
  next
    case False
    with Cons.prems have "UnregisterFdCallback D \<in> set cs" by simp
    from Cons.IH [OF this, of "perform rl c"] show ?thesis by simp
  qed
qed

lemma unregistered_gone:
  assumes "D \<in> set (pendingRemovals rl)"
  shows "D \<notin> fst ` set (fdReadCallbacks (snd (applyPendingChanges rl))) \<and>
         D \<notin> fd ` set (pfds (snd (applyPendingChanges rl)))"
proof -
  from applyPendingChanges_live [of rl] assms
  have "D \<notin> set (map fst (fdReadCallbacks (snd (applyPendingChanges rl))))"
    and "D \<notin> set (map fd (pfds (snd (applyPendingChanges rl))))"
    by simp_all
  then show ?thesis by simp
qed

lemma callback_loop_self:
  assumes "self_unregistering D cbs" and "undisturbed st"
  shows "if D \<in> fst ` set cbs
         then fst (callback_loop D cbs st) \<and>
              invocations (snd (callback_loop D cbs st)) = invocations st @ [(D, True)] \<and>
              D \<notin> fst ` set (fdReadCallbacks (runLoop (snd (callback_loop D cbs st)))) \<and>
              D \<notin> fd ` set (pfds (runLoop (snd (callback_loop D cbs st))))
         else callback_loop D cbs st = (False, st)"
  using assms(1)
proof (induction cbs)
  case Nil
  show ?case by simp
next
  case (Cons c cbs)
  from Cons.prems have su: "self_unregistering D cbs" by (simp add: self_unregistering_def)
  show ?case
  proof (cases "fst c = D")
    case False
    with Cons.IH [OF su] show ?thesis by simp
  next
    case True
    obtain calls w1 where cb: "snd c D (outside st) = (calls, w1)" by (cases "snd c D (outside st)")
    with Cons.prems True have u: "UnregisterFdCallback D \<in> set calls"
      by (auto simp: self_unregistering_def dest: spec [of _ "outside st"])
    then have ne: "calls \<noteq> []" by auto
    let ?rl = "foldl perform (runLoop st) calls"
    from assms(2) foldl_perform_changed [of "runLoop st" calls] ne
    have ch: "fst (applyPendingChanges ?rl)" by (simp add: undisturbed_def pending_empty_def)
    obtain changed rl1 where ap: "applyPendingChanges ?rl = (changed, rl1)"
      by (cases "applyPendingChanges ?rl")
    with ch have changed by simp
    from unregistered_gone [OF foldl_perform_removals [OF u, of "runLoop st"]] ap
    have "D \<notin> fst ` set (fdReadCallbacks rl1)" "D \<notin> fd ` set (pfds rl1)" by simp_all
    with True cb ap \<open>changed\<close> show ?thesis by (simp add: Let_def)
  qed
qed

lemma callback_loop_other:
  "d \<noteq> D \<Longrightarrow>
   filter (\<lambda>e. fst e = D) (invocations (snd (callback_loop d cbs st))) =
   filter (\<lambda>e. fst e = D) (invocations st)"
proof (induction cbs arbitrary: st)
  case Nil
  show ?case by simp
next
  case (Cons c cbs)
  show ?case
  proof (cases "fst c = d")
    case False
    with Cons show ?thesis by simp
  next
    case True
    obtain calls w1 where cb: "snd c d (outside st) = (calls, w1)" by (cases "snd c d (outside st)")
    obtain changed rl1 where ap: "applyPendingChanges (foldl perform (runLoop st) calls) = (changed, rl1)"
      by (cases "applyPendingChanges (foldl perform (runLoop st) calls)")
    let ?st2 = "st\<lparr> runLoop := rl1, outside := w1, invocations := invocations st @ [(d, changed)],
                    performed := performed st @ calls, eventWasSent := True \<rparr>"
    from Cons.IH [OF Cons.prems, of ?st2] Cons.prems True cb ap show ?thesis
      by (cases changed) (simp_all add: Let_def)
  qed
qed

lemma callback_loop_invoked:
  "fst ` set (invocations (snd (callback_loop d cbs st))) \<subseteq>
   fst ` set (invocations st) \<union> fst ` set cbs"
proof (induction cbs arbitrary: st)
  case Nil
  show ?case by simp
next
  case (Cons c cbs)
  show ?case
  proof (cases "fst c = d")
    case False
    with Cons [of st] show ?thesis by auto
  next
    case True
    obtain calls w1 where cb: "snd c d (outside st) = (calls, w1)" by (cases "snd c d (outside st)")
    obtain changed rl1 where ap: "applyPendingChanges (foldl perform (runLoop st) calls) = (changed, rl1)"
      by (cases "applyPendingChanges (foldl perform (runLoop st) calls)")
    let ?st2 = "st\<lparr> runLoop := rl1, outside := w1, invocations := invocations st @ [(d, changed)],
                    performed := performed st @ calls, eventWasSent := True \<rparr>"
    from Cons [of ?st2] True cb ap show ?thesis
      by (cases changed) (auto simp: Let_def)
  qed
qed

lemma pfd_loop_self:
  assumes "undisturbed st" and "self_unregistering D (fdReadCallbacks (runLoop st))"
  shows "filter (\<lambda>e. fst e = D) (invocations (snd (pfd_loop js st))) =
           filter (\<lambda>e. fst e = D) (invocations st) \<or>
         (fst (pfd_loop js st) \<and>
          (\<exists>tr. invocations (snd (pfd_loop js st)) = tr @ [(D, True)] \<and>
                filter (\<lambda>e. fst e = D) tr = filter (\<lambda>e. fst e = D) (invocations st)) \<and>
          D \<notin> fst ` set (fdReadCallbacks (runLoop (snd (pfd_loop js st)))) \<and>
          D \<notin> fd ` set (pfds (runLoop (snd (pfd_loop js st)))))"
  using assms
proof (induction js arbitrary: st)
  case Nil
  show ?case by simp
next
  case (Cons i js)
  let ?pfd = "pfds (runLoop st) ! i"
  show ?case
  proof (cases "revents ?pfd = 0")
    case True
    with Cons.IH [OF Cons.prems] show ?thesis by simp
  next
    case False
    let ?st1 = "st\<lparr> runLoop := (runLoop st)\<lparr> pfds := (pfds (runLoop st))[i := ?pfd\<lparr> revents := 0 \<rparr>] \<rparr> \<rparr>"
    let ?cbs = "fdReadCallbacks (runLoop ?st1)"
    from Cons.prems have u1: "undisturbed ?st1" by (simp add: undisturbed_def pending_empty_def)
    from Cons.prems have su1: "self_unregistering D ?cbs" by simp
    have i1: "invocations ?st1 = invocations st" by simp
    obtain ab st2 where cl: "callback_loop (fd ?pfd) ?cbs ?st1 = (ab, st2)"
      by (cases "callback_loop (fd ?pfd) ?cbs ?st1")
    have step: "pfd_loop (i # js) st = (if ab then (True, st2) else pfd_loop js st2)"
      using False cl by (simp add: Let_def)
    from callback_loop_flow [OF u1, of "fd ?pfd" ?cbs] cl
    have fl: "\<not> ab \<longrightarrow> undisturbed st2 \<and> runLoop st2 = runLoop ?st1" by simp
    show ?thesis
    proof (cases "fd ?pfd = D")
      case True
      show ?thesis
      proof (cases "D \<in> fst ` set ?cbs")
        case in_cbs: True
        with callback_loop_self [OF su1 u1] True cl
        have "ab" "invocations st2 = invocations st @ [(D, True)]"
          "D \<notin> fst ` set (fdReadCallbacks (runLoop st2))" "D \<notin> fd ` set (pfds (runLoop st2))"
          by simp_all
        with step show ?thesis by simp
      next
        case not_in: False
        with callback_loop_self [OF su1 u1] True cl
        have "ab = False" "st2 = ?st1" by simp_all
        with step Cons.IH [OF u1 su1] show ?thesis by simp
      qed
    next
      case other: False
      from callback_loop_other [OF other, of ?cbs ?st1] cl
      have same: "filter (\<lambda>e. fst e = D) (invocations st2) = filter (\<lambda>e. fst e = D) (invocations st)"
        by simp
      show ?thesis
      proof (cases ab)
        case True
        with step same show ?thesis by simp
      next
        case False
        with fl have u2: "undisturbed st2" and r2: "runLoop st2 = runLoop ?st1" by simp_all
        from su1 r2 have su2: "self_unregistering D (fdReadCallbacks (runLoop st2))" by simp
        from Cons.IH [OF u2 su2] step False same show ?thesis by simp
      qed
    qed
  qed
qed

lemma pfd_loop_only:
  assumes "undisturbed st" and "self_unregistering D (fdReadCallbacks (runLoop st))"
    and "D \<in> fst ` set (fdReadCallbacks (runLoop st))"
    and "\<forall>j < length (pfds (runLoop st)). (revents (pfds (runLoop st) ! j) \<noteq> 0) = (fd (pfds (runLoop st) ! j) = D)"
    and "\<forall>j\<in>set js. j < length (pfds (runLoop st))"
    and "\<exists>j\<in>set js. fd (pfds (runLoop st) ! j) = D"
  shows "fst (pfd_loop js st) \<and> invocations (snd (pfd_loop js st)) = invocations st @ [(D, True)]"
  using assms(5,6)
proof (induction js)
  case Nil
  then show ?case by simp
next
  case (Cons i js)
  let ?pfd = "pfds (runLoop st) ! i"
  from Cons.prems assms(4) have r: "(revents ?pfd \<noteq> 0) = (fd ?pfd = D)" by simp
  show ?case
  proof (cases "fd ?pfd = D")
    case False
    with r Cons show ?thesis by simp
  next
    case True
    let ?st1 = "st\<lparr> runLoop := (runLoop st)\<lparr> pfds := (pfds (runLoop st))[i := ?pfd\<lparr> revents := 0 \<rparr>] \<rparr> \<rparr>"
    let ?cbs = "fdReadCallbacks (runLoop ?st1)"
    from assms(1) have u1: "undisturbed ?st1" by (simp add: undisturbed_def pending_empty_def)
    from assms(2) have su1: "self_unregistering D ?cbs" by simp
    from assms(3) have "D \<in> fst ` set ?cbs" by simp
    obtain ab st2 where cl: "callback_loop D ?cbs ?st1 = (ab, st2)"
      by (cases "callback_loop D ?cbs ?st1")
    from \<open>D \<in> fst ` set ?cbs\<close> callback_loop_self [OF su1 u1] cl
    have "ab" "invocations st2 = invocations st @ [(D, True)]" by simp_all
    with True r cl show ?thesis by (simp add: Let_def)
  qed
qed

lemma pfd_loop_invoked:
  assumes "undisturbed st"
  shows "fst ` set (invocations (snd (pfd_loop js st))) \<subseteq>
         fst ` set (invocations st) \<union> fst ` set (fdReadCallbacks (runLoop st))"
  using assms
proof (induction js arbitrary: st)
  case Nil
  show ?case by simp
next
  case (Cons i js)
  let ?pfd = "pfds (runLoop st) ! i"
  show ?case
  proof (cases "revents ?pfd = 0")
    case True
    with Cons.IH [OF Cons.prems] show ?thesis by simp
  next
    case False
    let ?st1 = "st\<lparr> runLoop := (runLoop st)\<lparr> pfds := (pfds (runLoop st))[i := ?pfd\<lparr> revents := 0 \<rparr>] \<rparr> \<rparr>"
    let ?cbs = "fdReadCallbacks (runLoop ?st1)"
    from Cons.prems have u1: "undisturbed ?st1" by (simp add: undisturbed_def pending_empty_def)
    obtain ab st2 where cl: "callback_loop (fd ?pfd) ?cbs ?st1 = (ab, st2)"
      by (cases "callback_loop (fd ?pfd) ?cbs ?st1")
    have step: "pfd_loop (i # js) st = (if ab then (True, st2) else pfd_loop js st2)"
      using False cl by (simp add: Let_def)
    from callback_loop_flow [OF u1, of "fd ?pfd" ?cbs] cl
    have fl: "\<not> ab \<longrightarrow> undisturbed st2 \<and> runLoop st2 = runLoop ?st1" by simp
    from callback_loop_invoked [of "fd ?pfd" ?cbs ?st1] cl
    have inv2: "fst ` set (invocations st2) \<subseteq>
                fst ` set (invocations st) \<union> fst ` set (fdReadCallbacks (runLoop st))" by simp
    show ?thesis
    proof (cases ab)
      case True
      with step inv2 show ?thesis by simp
    next
      case False
      with fl have u2: "undisturbed st2" and r2: "runLoop st2 = runLoop ?st1" by simp_all
      from Cons.IH [OF u2] r2 inv2 step False show ?thesis by auto
    qed
  qed
qed

lemma poll_only_ready:
  assumes "\<forall>d e. (k d e \<noteq> 0) = (d = D)" and "poll (PollReady k) ps = (n, ps')"
  shows "\<forall>j < length ps'. (revents (ps' ! j) \<noteq> 0) = (fd (ps' ! j) = D)"
    and "D \<in> fd ` set ps \<Longrightarrow> n \<noteq> 0"
proof -
  from assms(2) have ps': "ps' = map (\<lambda>p. p\<lparr> revents := k (fd p) (events p) \<rparr>) ps"
    and n: "n = int (length (filter (\<lambda>p. revents p \<noteq> 0) ps'))"
    by (auto simp: Let_def)
  from ps' assms(1) show "\<forall>j < length ps'. (revents (ps' ! j) \<noteq> 0) = (fd (ps' ! j) = D)"
    by simp
  assume "D \<in> fd ` set ps"
  then obtain p where p: "p \<in> set ps" "fd p = D" by auto
  with ps' assms(1) have "p\<lparr> revents := k (fd p) (events p) \<rparr> \<in> set (filter (\<lambda>p. revents p \<noteq> 0) ps')"
    by auto
  then have "length (filter (\<lambda>p. revents p \<noteq> 0) ps') \<noteq> 0"
    by (metis empty_iff list.set(1) length_0_conv)
  with n show "n \<noteq> 0" by simp
qed

lemma dispatchPendingEvents_unfold:
  assumes "pfds (snd (applyPendingChanges rl)) \<noteq> []"
    and "poll pr (pfds (snd (applyPendingChanges rl))) = (n, ps)"
    and "st0 = \<lparr> runLoop = (snd (applyPendingChanges rl))\<lparr> pfds := ps \<rparr>, outside = w,
                 invocations = [], performed = [], eventWasSent = False \<rparr>"
  shows "dispatchPendingEvents pr rl w =
           (if n = 0 then Inr (False, st0)
            else if fst (pfd_loop [0 ..< length ps] st0) then Inr (True, snd (pfd_loop [0 ..< length ps] st0))
            else Inr (eventWasSent (snd (pfd_loop [0 ..< length ps] st0)), snd (pfd_loop [0 ..< length ps] st0)))"
  using assms by (simp add: dispatchPendingEvents_def Let_def split: prod.splits bool.splits)

lemma foldl_perform_pending:
  "pendingAdditions (foldl perform rl cs) = pendingAdditions rl @ registered cs \<and>
   pendingRemovals (foldl perform rl cs) = pendingRemovals rl @ unregistered cs"
proof (induction cs arbitrary: rl)
  case Nil
  show ?case by simp
next
  case (Cons c cs)
  show ?case
    using Cons [of "perform rl c"]
    by (cases c) (simp_all add: registerFdCallback_def unregisterFdCallback_def Let_def)
qed

lemma registered_fd: "map (\<lambda>a. fd (snd (snd a))) (registered cs) = map fst (registered cs)"
  by (induction cs rule: registered.induct) simp_all

lemma foldl_mergeAddition_exact:
  "fdReadCallbacks (foldl mergeAddition rl adds) =
     fdReadCallbacks rl @ map (\<lambda>a. (fst a, fst (snd a))) adds \<and>
   pfds (foldl mergeAddition rl adds) = pfds rl @ map (\<lambda>a. snd (snd a)) adds"
  by (induction adds arbitrary: rl) (simp_all add: mergeAddition_def split: prod.splits)

lemma foldl_removeFdCallback_exact:
  "fdReadCallbacks (foldl removeFdCallback rl ds) =
     filter (\<lambda>c. fst c \<notin> set ds) (fdReadCallbacks rl) \<and>
   pfds (foldl removeFdCallback rl ds) = filter (\<lambda>p. fd p \<notin> set ds) (pfds rl)"
proof (induction ds arbitrary: rl)
  case Nil
  show ?case by simp
next
  case (Cons d ds)
  show ?case using Cons [of "removeFdCallback rl d"]
    by (simp add: removeFdCallback_def conj_commute)
qed

lemma applyPendingChanges_exact:
  "fdReadCallbacks (snd (applyPendingChanges rl)) =
     filter (\<lambda>c. fst c \<notin> set (pendingRemovals rl))
       (fdReadCallbacks rl @ map (\<lambda>a. (fst a, fst (snd a))) (pendingAdditions rl)) \<and>
   pfds (snd (applyPendingChanges rl)) =
     filter (\<lambda>p. fd p \<notin> set (pendingRemovals rl))
       (pfds rl @ map (\<lambda>a. snd (snd a)) (pendingAdditions rl))"
  using foldl_removeFdCallback_exact [of "foldl mergeAddition rl (pendingAdditions rl)" "pendingRemovals rl"]
        foldl_mergeAddition_exact [of rl "pendingAdditions rl"]
  by (simp add: applyPendingChanges_def Let_def)

lemma callback_loop_merge:
  assumes "undisturbed st" and "performed st = []"
  shows "(\<not> fst (callback_loop d cbs st) \<and> performed (snd (callback_loop d cbs st)) = [] \<and>
          runLoop (snd (callback_loop d cbs st)) = runLoop st) \<or>
         (fst (callback_loop d cbs st) \<and> performed (snd (callback_loop d cbs st)) \<noteq> [] \<and>
          fdReadCallbacks (runLoop (snd (callback_loop d cbs st))) =
            filter (\<lambda>c. fst c \<notin> set (unregistered (performed (snd (callback_loop d cbs st)))))
              (fdReadCallbacks (runLoop st) @
               map (\<lambda>a. (fst a, fst (snd a))) (registered (performed (snd (callback_loop d cbs st))))) \<and>
          pfds (runLoop (snd (callback_loop d cbs st))) =
            filter (\<lambda>p. fd p \<notin> set (unregistered (performed (snd (callback_loop d cbs st)))))
              (pfds (runLoop st) @
               map (\<lambda>a. snd (snd a)) (registered (performed (snd (callback_loop d cbs st))))))"
  using assms
proof (induction cbs arbitrary: st)
  case Nil
  then show ?case by simp
next
  case (Cons c cbs)
  show ?case
  proof (cases "fst c = d")
    case False
    with Cons.IH [OF Cons.prems] show ?thesis by simp
  next
    case True
    obtain calls w1 where cb: "snd c d (outside st) = (calls, w1)" by (cases "snd c d (outside st)")
    let ?rl = "foldl perform (runLoop st) calls"
    obtain changed rl1 where ap: "applyPendingChanges ?rl = (changed, rl1)"
      by (cases "applyPendingChanges ?rl")
    from Cons.prems(1) have pe: "pendingAdditions (runLoop st) = []" "pendingRemovals (runLoop st) = []"
      by (simp_all add: undisturbed_def pending_empty_def)
    from foldl_perform_changed [OF pe, of calls] ap have ch: "changed = (calls \<noteq> [])" by simp
    let ?st1 = "st\<lparr> runLoop := rl1, outside := w1, invocations := invocations st @ [(d, changed)],
                    performed := performed st @ calls \<rparr>"
    show ?thesis
    proof (cases changed)
      case True
      from applyPendingChanges_exact [of ?rl] ap foldl_perform_pending [of "runLoop st" calls]
           foldl_perform_fields [of "runLoop st" calls] pe
      have "fdReadCallbacks rl1 =
              filter (\<lambda>c. fst c \<notin> set (unregistered calls))
                (fdReadCallbacks (runLoop st) @ map (\<lambda>a. (fst a, fst (snd a))) (registered calls))"
        and "pfds rl1 =
              filter (\<lambda>p. fd p \<notin> set (unregistered calls))
                (pfds (runLoop st) @ map (\<lambda>a. snd (snd a)) (registered calls))"
        by simp_all
      with True ch \<open>fst c = d\<close> cb ap Cons.prems(2) show ?thesis by (simp add: Let_def)
    next
      case False
      with ch have c0: "calls = []" by simp
      with ap False applyPendingChanges_unchanged [of ?rl] have rl1: "rl1 = runLoop st" by simp
      let ?st2 = "?st1\<lparr> eventWasSent := True \<rparr>"
      from Cons.prems False rl1 c0 have u: "undisturbed ?st2" and p: "performed ?st2 = []"
        by (simp_all add: undisturbed_def)
      from Cons.IH [OF u p] rl1 False \<open>fst c = d\<close> cb ap show ?thesis by (simp add: Let_def)
    qed
  qed
qed

lemma pfd_loop_merge:
  assumes "undisturbed st" and "performed st = []"
  shows "fst (pfd_loop js st) = (performed (snd (pfd_loop js st)) \<noteq> []) \<and>
         fdReadCallbacks (runLoop (snd (pfd_loop js st))) =
           filter (\<lambda>c. fst c \<notin> set (unregistered (performed (snd (pfd_loop js st)))))
             (fdReadCallbacks (runLoop st) @
              map (\<lambda>a. (fst a, fst (snd a))) (registered (performed (snd (pfd_loop js st))))) \<and>
         map fd (pfds (runLoop (snd (pfd_loop js st)))) =
           filter (\<lambda>d. d \<notin> set (unregistered (performed (snd (pfd_loop js st)))))
             (map fd (pfds (runLoop st)) @ map fst (registered (performed (snd (pfd_loop js st)))))"
  using assms
proof (induction js arbitrary: st)
  case Nil
  then show ?case by simp
next
  case (Cons i js)
  let ?pfd = "pfds (runLoop st) ! i"
  show ?case
  proof (cases "revents ?pfd = 0")
    case True
    with Cons.IH [OF Cons.prems] show ?thesis by simp
  next
    case False
    let ?st1 = "st\<lparr> runLoop := (runLoop st)\<lparr> pfds := (pfds (runLoop st))[i := ?pfd\<lparr> revents := 0 \<rparr>] \<rparr> \<rparr>"
    let ?cbs = "fdReadCallbacks (runLoop ?st1)"
    from Cons.prems have u1: "undisturbed ?st1" and p1: "performed ?st1 = []"
      by (simp_all add: undisturbed_def pending_empty_def)
    have f1: "fdReadCallbacks (runLoop ?st1) = fdReadCallbacks (runLoop st)" by simp
    have d1: "map fd (pfds (runLoop ?st1)) = map fd (pfds (runLoop st))"
      using clear_revents_fds [of "pfds (runLoop st)" i] by simp
    obtain ab st2 where cl: "callback_loop (fd ?pfd) ?cbs ?st1 = (ab, st2)"
      by (cases "callback_loop (fd ?pfd) ?cbs ?st1")
    have step: "pfd_loop (i # js) st = (if ab then (True, st2) else pfd_loop js st2)"
      using False cl by (simp add: Let_def)
    from callback_loop_flow [OF u1, of "fd ?pfd" ?cbs] cl
    have fl: "\<not> ab \<longrightarrow> undisturbed st2" by simp
    from callback_loop_merge [OF u1 p1, of "fd ?pfd" ?cbs] cl
    have m: "(\<not> ab \<and> performed st2 = [] \<and> runLoop st2 = runLoop ?st1) \<or>
         (ab \<and> performed st2 \<noteq> [] \<and>
          fdReadCallbacks (runLoop st2) =
            filter (\<lambda>c. fst c \<notin> set (unregistered (performed st2)))
              (fdReadCallbacks (runLoop ?st1) @ map (\<lambda>a. (fst a, fst (snd a))) (registered (performed st2))) \<and>
          pfds (runLoop st2) =
            filter (\<lambda>p. fd p \<notin> set (unregistered (performed st2)))
              (pfds (runLoop ?st1) @ map (\<lambda>a. snd (snd a)) (registered (performed st2))))"
      by simp
    show ?thesis
    proof (cases ab)
      case True
      with m have ne: "performed st2 \<noteq> []"
        and f2: "fdReadCallbacks (runLoop st2) =
            filter (\<lambda>c. fst c \<notin> set (unregistered (performed st2)))
              (fdReadCallbacks (runLoop ?st1) @ map (\<lambda>a. (fst a, fst (snd a))) (registered (performed st2)))"
        and p2: "pfds (runLoop st2) =
            filter (\<lambda>p. fd p \<notin> set (unregistered (performed st2)))
              (pfds (runLoop ?st1) @ map (\<lambda>a. snd (snd a)) (registered (performed st2)))"
        by simp_all
      from p2 have "map fd (pfds (runLoop st2)) =
            filter (\<lambda>d. d \<notin> set (unregistered (performed st2)))
              (map fd (pfds (runLoop ?st1)) @ map (\<lambda>a. fd (snd (snd a))) (registered (performed st2)))"
        by (simp add: filter_map comp_def)
      then have "map fd (pfds (runLoop st2)) =
            filter (\<lambda>d. d \<notin> set (unregistered (performed st2)))
              (map fd (pfds (runLoop ?st1)) @ map fst (registered (performed st2)))"
        by (simp only: registered_fd)
      with d1
      have "map fd (pfds (runLoop st2)) =
            filter (\<lambda>d. d \<notin> set (unregistered (performed st2)))
              (map fd (pfds (runLoop st)) @ map fst (registered (performed st2)))"
        by simp
      with True step ne f2 f1 show ?thesis by simp
    next
      case nab: False
      with m fl have u2: "undisturbed st2" and p2: "performed st2 = []"
        and r2: "runLoop st2 = runLoop ?st1" by simp_all
      from Cons.IH [OF u2 p2] step nab r2 f1 d1 show ?thesis by simp
    qed
  qed
qed

text \<open>
  C3. One pass of \<^verbatim>\<open>dispatchPendingEvents\<close>. If the descriptor set is empty after the
  initial merge, the pass evaluates \<^verbatim>\<open>pfds.front()\<close> on the empty vector. Otherwise it
  returns, and the pending changes have been applied again after every callback
  invocation: nothing is left staged, and the two vectors are exactly those the pass
  started with, followed by the registrations the invoked callbacks made, without the
  entries of every descriptor they unregistered. Every logged invocation but the last
  was followed by a merge that applied no change; the merge after the last one applied
  a change exactly when the callbacks made a registration call, and then the pass
  returned \<open>True\<close> at once. If no merge applied a change, the result is \<open>True\<close> exactly
  when at least one callback ran, and when the zero-timeout \<^verbatim>\<open>poll\<close> returns 0 the
  result is \<open>False\<close> and no callback runs.
\<close>

theorem dispatchPendingEvents_result:
  "(pfds (snd (applyPendingChanges rl)) = [] \<longrightarrow>
      dispatchPendingEvents pr rl w = Inl FrontOfEmptyVector) \<and>
   (pfds (snd (applyPendingChanges rl)) \<noteq> [] \<longrightarrow>
      (\<exists>r st. dispatchPendingEvents pr rl w = Inr (r, st) \<and>
         pendingAdditions (runLoop st) = [] \<and> pendingRemovals (runLoop st) = [] \<and>
         fdReadCallbacks (runLoop st) =
           filter (\<lambda>c. fst c \<notin> set (unregistered (performed st)))
             (fdReadCallbacks (snd (applyPendingChanges rl)) @
              map (\<lambda>a. (fst a, fst (snd a))) (registered (performed st))) \<and>
         map fd (pfds (runLoop st)) =
           filter (\<lambda>d. d \<notin> set (unregistered (performed st)))
             (map fd (pfds (snd (applyPendingChanges rl))) @ map fst (registered (performed st))) \<and>
         (\<forall>e\<in>set (butlast (invocations st)). \<not> snd e) \<and>
         ((invocations st \<noteq> [] \<and> snd (last (invocations st))) = (performed st \<noteq> [])) \<and>
         (invocations st \<noteq> [] \<and> snd (last (invocations st)) \<longrightarrow> r) \<and>
         ((\<forall>e\<in>set (invocations st). \<not> snd e) \<longrightarrow> r = (invocations st \<noteq> [])) \<and>
         (fst (poll pr (pfds (snd (applyPendingChanges rl)))) = 0 \<longrightarrow> \<not> r \<and> invocations st = [])))"
proof (intro conjI impI)
  assume "pfds (snd (applyPendingChanges rl)) = []"
  then show "dispatchPendingEvents pr rl w = Inl FrontOfEmptyVector"
    by (simp add: dispatchPendingEvents_def)
next
  let ?rl1 = "snd (applyPendingChanges rl)"
  assume ne: "pfds ?rl1 \<noteq> []"
  obtain n ps where p: "poll pr (pfds ?rl1) = (n, ps)" by (cases "poll pr (pfds ?rl1)")
  define st0 where "st0 = \<lparr> runLoop = ?rl1\<lparr> pfds := ps \<rparr>, outside = w,
                             invocations = [], performed = [], eventWasSent = False \<rparr>"
  note unf = dispatchPendingEvents_unfold [OF ne p st0_def]
  from applyPendingChanges_pending [of rl]
  have u: "undisturbed st0" by (simp add: undisturbed_def pending_empty_def st0_def)
  have p0: "performed st0 = []" and i0: "invocations st0 = []"
    and f0: "fdReadCallbacks (runLoop st0) = fdReadCallbacks ?rl1"
    by (simp_all add: st0_def)
  from poll_fds [of pr "pfds ?rl1"] p have d0: "map fd (pfds (runLoop st0)) = map fd (pfds ?rl1)"
    by (simp add: st0_def del: poll.simps)
  let ?res = "pfd_loop [0 ..< length ps] st0"
  define r where "r = (if n = 0 then False else if fst ?res then True else eventWasSent (snd ?res))"
  define st where "st = (if n = 0 then st0 else snd ?res)"
  from unf have d: "dispatchPendingEvents pr rl w = Inr (r, st)" by (simp add: r_def st_def)
  note fl = pfd_loop_flow [OF u, of "[0 ..< length ps]"]
  note mg = pfd_loop_merge [OF u p0, of "[0 ..< length ps]"]
  have ab: "n \<noteq> 0 \<and> fst ?res \<longrightarrow> aborted st \<and> performed st \<noteq> [] \<and> r"
    using fl mg by (simp add: st_def r_def)
  have qu: "\<not> (n \<noteq> 0 \<and> fst ?res) \<longrightarrow>
              undisturbed st \<and> performed st = [] \<and> r = (invocations st \<noteq> [])"
    using fl mg u p0 i0 by (auto simp: st_def r_def undisturbed_def)
  have pa: "pendingAdditions (runLoop st) = []" and pr': "pendingRemovals (runLoop st) = []"
    using ab qu by (auto simp: aborted_def undisturbed_def pending_empty_def)
  have c1: "fdReadCallbacks (runLoop st) =
           filter (\<lambda>c. fst c \<notin> set (unregistered (performed st)))
             (fdReadCallbacks ?rl1 @ map (\<lambda>a. (fst a, fst (snd a))) (registered (performed st)))"
  proof (cases "n = 0")
    case True
    then show ?thesis using f0 p0 by (simp add: st_def)
  next
    case False
    with mg f0 show ?thesis by (simp add: st_def)
  qed
  have c2: "map fd (pfds (runLoop st)) =
           filter (\<lambda>d. d \<notin> set (unregistered (performed st)))
             (map fd (pfds ?rl1) @ map fst (registered (performed st)))"
  proof (cases "n = 0")
    case True
    then show ?thesis using d0 p0 by (simp add: st_def)
  next
    case False
    with mg d0 show ?thesis by (simp add: st_def)
  qed
  have c3: "\<forall>e\<in>set (butlast (invocations st)). \<not> snd e"
    using ab qu by (auto simp: aborted_def undisturbed_def list_all_iff dest: in_set_butlastD)
  have c4: "(invocations st \<noteq> [] \<and> snd (last (invocations st))) = (performed st \<noteq> [])"
    using ab qu by (auto simp: aborted_def undisturbed_def list_all_iff)
  have c5: "invocations st \<noteq> [] \<and> snd (last (invocations st)) \<longrightarrow> r"
    using ab qu c4 by blast
  have c6: "(\<forall>e\<in>set (invocations st). \<not> snd e) \<longrightarrow> r = (invocations st \<noteq> [])"
    using ab qu by (auto simp: aborted_def)
  have c7: "fst (poll pr (pfds ?rl1)) = 0 \<longrightarrow> \<not> r \<and> invocations st = []"
    using p i0 by (simp add: r_def st_def del: poll.simps)
  show "\<exists>r st. dispatchPendingEvents pr rl w = Inr (r, st) \<and>
         pendingAdditions (runLoop st) = [] \<and> pendingRemovals (runLoop st) = [] \<and>
         fdReadCallbacks (runLoop st) =
           filter (\<lambda>c. fst c \<notin> set (unregistered (performed st)))
             (fdReadCallbacks ?rl1 @ map (\<lambda>a. (fst a, fst (snd a))) (registered (performed st))) \<and>
         map fd (pfds (runLoop st)) =
           filter (\<lambda>d. d \<notin> set (unregistered (performed st)))
             (map fd (pfds ?rl1) @ map fst (registered (performed st))) \<and>
         (\<forall>e\<in>set (butlast (invocations st)). \<not> snd e) \<and>
         ((invocations st \<noteq> [] \<and> snd (last (invocations st))) = (performed st \<noteq> [])) \<and>
         (invocations st \<noteq> [] \<and> snd (last (invocations st)) \<longrightarrow> r) \<and>
         ((\<forall>e\<in>set (invocations st). \<not> snd e) \<longrightarrow> r = (invocations st \<noteq> [])) \<and>
         (fst (poll pr (pfds ?rl1)) = 0 \<longrightarrow> \<not> r \<and> invocations st = [])"
    by (rule exI [of _ r], rule exI [of _ st]) (intro conjI d pa pr' c1 c2 c3 c4 c5 c6 c7)
qed

theorem dispatchPendingEvents_result_witness:
  "dispatchPendingEvents (PollReady (\<lambda>d e. 1)) (newRunLoop :: unit InternalRunLoop) ()
     = Inl FrontOfEmptyVector \<and>
   (\<exists>st. dispatchPendingEvents (PollReady (\<lambda>d e. 1))
       (registerFdCallback (registerFdCallback (newRunLoop :: unit InternalRunLoop)
          5 (\<lambda>d w. ([], w)) 1)
          7 (\<lambda>d w. ([UnregisterFdCallback d, RegisterFdCallback 9 (\<lambda>d w. ([], w)) 1], w)) 1) ()
       = Inr (True, st) \<and>
       invocations st = [(5, False), (7, True)] \<and>
       unregistered (performed st) = [7] \<and> map fst (registered (performed st)) = [9] \<and>
       map fst (fdReadCallbacks (runLoop st)) = [5, 9] \<and>
       map fd (pfds (runLoop st)) = [5, 9] \<and>
       pendingAdditions (runLoop st) = [] \<and> pendingRemovals (runLoop st) = [])"
proof -
  let ?pr = "PollReady (\<lambda>d e. 1)"
  let ?rl = "registerFdCallback (registerFdCallback (newRunLoop :: unit InternalRunLoop)
          5 (\<lambda>d w. ([], w)) 1)
          7 (\<lambda>d w. ([UnregisterFdCallback d, RegisterFdCallback 9 (\<lambda>d w. ([], w)) 1], w)) 1"
  have e0: "pfds (snd (applyPendingChanges (newRunLoop :: unit InternalRunLoop))) = []"
    by (simp add: run_loop_defs)
  have a: "dispatchPendingEvents ?pr (newRunLoop :: unit InternalRunLoop) () = Inl FrontOfEmptyVector"
    by (rule dispatchPendingEvents_result [THEN conjunct1, THEN mp, OF e0])
  have h: "pfds (snd (applyPendingChanges ?rl)) \<noteq> []" by (simp add: run_loop_defs)
  from dispatchPendingEvents_result [of ?rl ?pr "()", THEN conjunct2, THEN mp, OF h]
  obtain r st where d: "dispatchPendingEvents ?pr ?rl () = Inr (r, st)"
    and pa: "pendingAdditions (runLoop st) = []" and pr: "pendingRemovals (runLoop st) = []"
    by (elim exE conjE)
  have e: "\<exists>st. dispatchPendingEvents ?pr ?rl () = Inr (True, st) \<and>
       invocations st = [(5, False), (7, True)] \<and>
       unregistered (performed st) = [7] \<and> map fst (registered (performed st)) = [9] \<and>
       map fst (fdReadCallbacks (runLoop st)) = [5, 9] \<and>
       map fd (pfds (runLoop st)) = [5, 9]"
    by (simp add: run_loop_defs)
  with d pa pr a show ?thesis by auto
qed

text \<open>
  C7. Let every callback registered for descriptor \<open>D\<close> unregister \<open>D\<close> when invoked,
  and let \<open>D\<close> be in the live set of a consistent run loop. Then a pass invokes a
  callback for \<open>D\<close> at most once; if it does, that invocation is the last of the pass,
  the pass returns \<open>True\<close>, and the merge right after the invocation has removed \<open>D\<close>
  from both vectors, with nothing left staged. When \<open>D\<close> is the only ready descriptor
  the pass makes exactly that one invocation. In any pass started from a run loop in
  which \<open>D\<close> is neither live nor staged for addition, no callback is invoked for
  \<open>D\<close>: later passes cannot observe it unless it is registered again.
\<close>

theorem self_unregistering_callback_runs_once:
  assumes "consistent rl"
    and "self_unregistering D (fdReadCallbacks (snd (applyPendingChanges rl)))"
    and "D \<in> fst ` set (fdReadCallbacks (snd (applyPendingChanges rl)))"
  shows "(\<exists>r st. dispatchPendingEvents pr rl w = Inr (r, st) \<and>
            length (filter (\<lambda>e. fst e = D) (invocations st)) \<le> 1 \<and>
            (D \<in> fst ` set (invocations st) \<longrightarrow>
               r \<and> last (invocations st) = (D, True) \<and>
               D \<notin> fst ` set (fdReadCallbacks (runLoop st)) \<and>
               D \<notin> fd ` set (pfds (runLoop st)) \<and>
               pendingAdditions (runLoop st) = []) \<and>
            ((\<exists>k. pr = PollReady k \<and> (\<forall>d e. (k d e \<noteq> 0) = (d = D))) \<longrightarrow>
               invocations st = [(D, True)])) \<and>
         (\<forall>(rl' :: 'w InternalRunLoop) pr' w' r' st'.
            D \<notin> fst ` set (fdReadCallbacks rl') \<and> D \<notin> fst ` set (pendingAdditions rl') \<and>
            dispatchPendingEvents pr' rl' w' = Inr (r', st') \<longrightarrow>
            D \<notin> fst ` set (invocations st'))"
proof (intro conjI allI impI)
  let ?rl1 = "snd (applyPendingChanges rl)"
  from consistent_applyPendingChanges [OF assms(1)]
  have c1: "map fst (fdReadCallbacks ?rl1) = map fd (pfds ?rl1)" by (simp add: consistent_def)
  from assms(3) have "D \<in> set (map fst (fdReadCallbacks ?rl1))" by simp
  with c1 have dp: "D \<in> fd ` set (pfds ?rl1)" by simp
  then have ne: "pfds ?rl1 \<noteq> []" by auto
  obtain n ps where p: "poll pr (pfds ?rl1) = (n, ps)" by (cases "poll pr (pfds ?rl1)")
  define st0 where "st0 = \<lparr> runLoop = ?rl1\<lparr> pfds := ps \<rparr>, outside = w,
                             invocations = [], performed = [], eventWasSent = False \<rparr>"
  note unf = dispatchPendingEvents_unfold [OF ne p st0_def]
  from applyPendingChanges_pending [of rl]
  have u: "undisturbed st0" by (simp add: undisturbed_def pending_empty_def st0_def)
  have su: "self_unregistering D (fdReadCallbacks (runLoop st0))" using assms(2) by (simp add: st0_def)
  have din: "D \<in> fst ` set (fdReadCallbacks (runLoop st0))" using assms(3) by (simp add: st0_def)
  have i0: "invocations st0 = []" by (simp add: st0_def)
  let ?res = "pfd_loop [0 ..< length ps] st0"
  define onlyD where "onlyD \<longleftrightarrow> (\<exists>k. pr = PollReady k \<and> (\<forall>d e. (k d e \<noteq> 0) = (d = D)))"
  have only: "invocations (snd ?res) = [(D, True)] \<and> n \<noteq> 0 \<and> fst ?res" if onlyD
  proof -
    from that obtain k where k: "pr = PollReady k" "\<forall>d e. (k d e \<noteq> 0) = (d = D)"
      unfolding onlyD_def by blast
    from p k(1) have pk: "poll (PollReady k) (pfds ?rl1) = (n, ps)" by (simp del: poll.simps)
    from poll_only_ready(2) [OF k(2) pk dp] have n0: "n \<noteq> 0" .
    from poll_only_ready(1) [OF k(2) pk]
    have rd: "\<forall>j < length (pfds (runLoop st0)). (revents (pfds (runLoop st0) ! j) \<noteq> 0) = (fd (pfds (runLoop st0) ! j) = D)"
      by (simp add: st0_def)
    have ps: "pfds (runLoop st0) = ps" by (simp add: st0_def)
    from poll_fds [of pr "pfds ?rl1"] p have "map fd ps = map fd (pfds ?rl1)" by (simp del: poll.simps)
    with dp have "D \<in> set (map fd ps)" by simp
    then obtain j where "j < length ps" "fd (ps ! j) = D"
      by (auto simp: in_set_conv_nth)
    with ps have ex: "\<exists>j\<in>set [0 ..< length ps]. fd (pfds (runLoop st0) ! j) = D" by auto
    have all: "\<forall>j\<in>set [0 ..< length ps]. j < length (pfds (runLoop st0))" using ps by simp
    from pfd_loop_only [OF u su din rd all ex] i0 n0 show ?thesis by simp
  qed
  from pfd_loop_flow [OF u, of "[0 ..< length ps]"]
  have pe: "pending_empty (runLoop (snd ?res))"
    by (cases "fst ?res") (simp_all add: aborted_def undisturbed_def)
  from pfd_loop_self [OF u su, of "[0 ..< length ps]"] i0
  have alt: "filter (\<lambda>e. fst e = D) (invocations (snd ?res)) = [] \<or>
         (fst ?res \<and>
          (\<exists>tr. invocations (snd ?res) = tr @ [(D, True)] \<and> filter (\<lambda>e. fst e = D) tr = []) \<and>
          D \<notin> fst ` set (fdReadCallbacks (runLoop (snd ?res))) \<and>
          D \<notin> fd ` set (pfds (runLoop (snd ?res))))"
    by simp
  have main: "\<exists>r st. dispatchPendingEvents pr rl w = Inr (r, st) \<and>
            length (filter (\<lambda>e. fst e = D) (invocations st)) \<le> 1 \<and>
            (D \<in> fst ` set (invocations st) \<longrightarrow>
               r \<and> last (invocations st) = (D, True) \<and>
               D \<notin> fst ` set (fdReadCallbacks (runLoop st)) \<and>
               D \<notin> fd ` set (pfds (runLoop st)) \<and>
               pendingAdditions (runLoop st) = []) \<and>
            (onlyD \<longrightarrow> invocations st = [(D, True)])"
  proof (cases "n = 0")
    case True
    with unf have "dispatchPendingEvents pr rl w = Inr (False, st0)" by simp
    moreover from only True have "\<not> onlyD" by blast
    ultimately show ?thesis using i0
      by (intro exI [of _ False] exI [of _ st0]) simp
  next
    case False
    from alt show ?thesis
    proof
      assume none: "filter (\<lambda>e. fst e = D) (invocations (snd ?res)) = []"
      then have notin: "D \<notin> fst ` set (invocations (snd ?res))"
        by (auto simp: filter_empty_conv)
      have no_k: "\<not> onlyD"
      proof
        assume onlyD
        from only [OF this] none show False by simp
      qed
      from unf False obtain r where "dispatchPendingEvents pr rl w = Inr (r, snd ?res)"
        by (cases "fst ?res") simp_all
      with none notin no_k show ?thesis
        by (intro exI [of _ r] exI [of _ "snd ?res"]) simp
    next
      assume once: "fst ?res \<and>
          (\<exists>tr. invocations (snd ?res) = tr @ [(D, True)] \<and> filter (\<lambda>e. fst e = D) tr = []) \<and>
          D \<notin> fst ` set (fdReadCallbacks (runLoop (snd ?res))) \<and>
          D \<notin> fd ` set (pfds (runLoop (snd ?res)))"
      then obtain tr where tr: "invocations (snd ?res) = tr @ [(D, True)]"
        "filter (\<lambda>e. fst e = D) tr = []" by blast
      from unf False once have d: "dispatchPendingEvents pr rl w = Inr (True, snd ?res)" by simp
      have "onlyD \<longrightarrow> invocations (snd ?res) = [(D, True)]"
        using only by blast
      with d tr once pe show ?thesis
        by (intro exI [of _ True] exI [of _ "snd ?res"]) (simp add: pending_empty_def)
    qed
  qed
  then show "\<exists>r st. dispatchPendingEvents pr rl w = Inr (r, st) \<and>
            length (filter (\<lambda>e. fst e = D) (invocations st)) \<le> 1 \<and>
            (D \<in> fst ` set (invocations st) \<longrightarrow>
               r \<and> last (invocations st) = (D, True) \<and>
               D \<notin> fst ` set (fdReadCallbacks (runLoop st)) \<and>
               D \<notin> fd ` set (pfds (runLoop st)) \<and>
               pendingAdditions (runLoop st) = []) \<and>
            ((\<exists>k. pr = PollReady k \<and> (\<forall>d e. (k d e \<noteq> 0) = (d = D))) \<longrightarrow>
               invocations st = [(D, True)])"
    unfolding onlyD_def .
next
  fix rl' :: "'w InternalRunLoop" and pr' w' r' st'
  assume a: "D \<notin> fst ` set (fdReadCallbacks rl') \<and> D \<notin> fst ` set (pendingAdditions rl') \<and>
            dispatchPendingEvents pr' rl' w' = Inr (r', st')"
  let ?rl1 = "snd (applyPendingChanges rl')"
  from a applyPendingChanges_live [of rl']
  have "D \<notin> set (map fst (fdReadCallbacks ?rl1))" by simp
  then have absent: "D \<notin> fst ` set (fdReadCallbacks ?rl1)" by simp
  from a have ne: "pfds ?rl1 \<noteq> []" by (auto simp: dispatchPendingEvents_def Let_def split: if_splits)
  obtain n ps where p: "poll pr' (pfds ?rl1) = (n, ps)" by (cases "poll pr' (pfds ?rl1)")
  define st0 where "st0 = \<lparr> runLoop = ?rl1\<lparr> pfds := ps \<rparr>, outside = w',
                             invocations = [], performed = [], eventWasSent = False \<rparr>"
  note unf = dispatchPendingEvents_unfold [OF ne p st0_def]
  from applyPendingChanges_pending [of rl']
  have u: "undisturbed st0" by (simp add: undisturbed_def pending_empty_def st0_def)
  from pfd_loop_invoked [OF u, of "[0 ..< length ps]"] absent
  have "D \<notin> fst ` set (invocations (snd (pfd_loop [0 ..< length ps] st0)))"
    by (auto simp: st0_def)
  moreover have "D \<notin> fst ` set (invocations st0)" by (simp add: st0_def)
  ultimately show "D \<notin> fst ` set (invocations st')"
    using unf a by (auto split: if_splits)
qed

theorem self_unregistering_callback_runs_once_witness:
  "consistent (registerFdCallback (registerFdCallback (newRunLoop :: unit InternalRunLoop)
          5 (\<lambda>d w. ([], w)) 1) 7 (\<lambda>d w. ([UnregisterFdCallback d], w)) 1) \<and>
   (\<exists>st. dispatchPendingEvents (PollReady (\<lambda>d e. if d = 7 then 1 else 0))
       (registerFdCallback (registerFdCallback (newRunLoop :: unit InternalRunLoop)
          5 (\<lambda>d w. ([], w)) 1) 7 (\<lambda>d w. ([UnregisterFdCallback d], w)) 1) ()
       = Inr (True, st) \<and> invocations st = [(7, True)] \<and>
         map fst (fdReadCallbacks (runLoop st)) = [5] \<and> map fd (pfds (runLoop st)) = [5])"
proof -
  let ?rl = "registerFdCallback (registerFdCallback (newRunLoop :: unit InternalRunLoop)
          5 (\<lambda>d w. ([], w)) 1) 7 (\<lambda>d w. ([UnregisterFdCallback d], w)) 1"
  let ?pr = "PollReady (\<lambda>d e. if d = (7::int) then 1 else 0)"
  have c: "consistent ?rl" by (simp add: consistent_def run_loop_defs)
  have s: "self_unregistering 7 (fdReadCallbacks (snd (applyPendingChanges ?rl)))"
    by (simp add: self_unregistering_def run_loop_defs)
  have i: "7 \<in> fst ` set (fdReadCallbacks (snd (applyPendingChanges ?rl)))"
    by (simp add: run_loop_defs)
  have k: "\<exists>k. ?pr = PollReady k \<and> (\<forall>d e. (k d e \<noteq> 0) = (d = 7))" by simp
  from self_unregistering_callback_runs_once [OF c s i, of ?pr "()"]
  have "\<exists>r st. dispatchPendingEvents ?pr ?rl () = Inr (r, st) \<and>
            length (filter (\<lambda>e. fst e = 7) (invocations st)) \<le> 1 \<and>
            (7 \<in> fst ` set (invocations st) \<longrightarrow>
               r \<and> last (invocations st) = (7, True) \<and>
               7 \<notin> fst ` set (fdReadCallbacks (runLoop st)) \<and>
               7 \<notin> fd ` set (pfds (runLoop st)) \<and>
               pendingAdditions (runLoop st) = []) \<and>
            ((\<exists>k. ?pr = PollReady k \<and> (\<forall>d e. (k d e \<noteq> 0) = (d = 7))) \<longrightarrow>
               invocations st = [(7, True)])"
    by (rule conjunct1)
  then obtain r st where d: "dispatchPendingEvents ?pr ?rl () = Inr (r, st)"
    and rest: "7 \<in> fst ` set (invocations st) \<longrightarrow>
               r \<and> last (invocations st) = (7, True) \<and>
               7 \<notin> fst ` set (fdReadCallbacks (runLoop st)) \<and>
               7 \<notin> fd ` set (pfds (runLoop st)) \<and>
               pendingAdditions (runLoop st) = []"
    and o: "(\<exists>k. ?pr = PollReady k \<and> (\<forall>d e. (k d e \<noteq> 0) = (d = 7))) \<longrightarrow>
               invocations st = [(7, True)]"
    by (elim exE conjE)
  from o k have tr: "invocations st = [(7, True)]" by (rule mp)
  from tr rest have r by simp
  have e: "\<exists>st. dispatchPendingEvents ?pr ?rl () = Inr (True, st) \<and>
             map fst (fdReadCallbacks (runLoop st)) = [5] \<and> map fd (pfds (runLoop st)) = [5]"
    by (simp add: run_loop_defs)
  with d tr \<open>r\<close> c show ?thesis by auto
qed

text \<open>
  C10. The callback vector and the poll vector describe the same descriptors. A merge
  appends every staged addition to both vectors and then erases from both every entry
  whose descriptor is staged for removal. Consistency holds for a new run loop and is
  preserved by registration, unregistration, the merge, a dispatch pass and the idle
  wait; after a merge on a consistent run loop the two vectors hold the same multiset
  (indeed the same sequence) of descriptors, so every polled descriptor has a callback
  and every callback's descriptor is polled.
\<close>

theorem descriptors_and_callbacks_agree:
  "consistent (newRunLoop :: 'w InternalRunLoop) \<and>
   map fst (fdReadCallbacks (snd (applyPendingChanges rl))) =
     filter (\<lambda>d. d \<notin> set (pendingRemovals rl))
       (map fst (fdReadCallbacks rl) @ map fst (pendingAdditions rl)) \<and>
   map fd (pfds (snd (applyPendingChanges rl))) =
     filter (\<lambda>d. d \<notin> set (pendingRemovals rl))
       (map fd (pfds rl) @ map (\<lambda>a. fd (snd (snd a))) (pendingAdditions rl)) \<and>
   (consistent rl \<longrightarrow>
      consistent (registerFdCallback rl d cb eventMask) \<and>
      consistent (unregisterFdCallback rl d) \<and>
      consistent (snd (applyPendingChanges rl)) \<and>
      (\<forall>r st. dispatchPendingEvents pr rl w = Inr (r, st) \<longrightarrow> consistent (runLoop st)) \<and>
      (\<forall>rl1. sleepUntilNextEvent pr rl = Inr rl1 \<longrightarrow> consistent rl1) \<and>
      mset (map fst (fdReadCallbacks (snd (applyPendingChanges rl)))) =
        mset (map fd (pfds (snd (applyPendingChanges rl)))) \<and>
      fst ` set (fdReadCallbacks (snd (applyPendingChanges rl))) =
        fd ` set (pfds (snd (applyPendingChanges rl))))"
proof (intro conjI impI allI)
  show "consistent (newRunLoop :: 'w InternalRunLoop)" by (rule consistent_newRunLoop)
  show "map fst (fdReadCallbacks (snd (applyPendingChanges rl))) =
     filter (\<lambda>d. d \<notin> set (pendingRemovals rl))
       (map fst (fdReadCallbacks rl) @ map fst (pendingAdditions rl))"
    using applyPendingChanges_live [of rl] by blast
  show "map fd (pfds (snd (applyPendingChanges rl))) =
     filter (\<lambda>d. d \<notin> set (pendingRemovals rl))
       (map fd (pfds rl) @ map (\<lambda>a. fd (snd (snd a))) (pendingAdditions rl))"
    using applyPendingChanges_live [of rl] by blast
next
  assume c: "consistent rl"
  show "consistent (registerFdCallback rl d cb eventMask)"
    by (rule consistent_registerFdCallback [OF c])
  show "consistent (unregisterFdCallback rl d)"
    by (rule consistent_unregisterFdCallback [OF c])
  show "consistent (snd (applyPendingChanges rl))"
    by (rule consistent_applyPendingChanges [OF c])
  from consistent_applyPendingChanges [OF c]
  have eq: "map fst (fdReadCallbacks (snd (applyPendingChanges rl))) =
            map fd (pfds (snd (applyPendingChanges rl)))"
    by (simp add: consistent_def)
  then show "mset (map fst (fdReadCallbacks (snd (applyPendingChanges rl)))) =
        mset (map fd (pfds (snd (applyPendingChanges rl))))"
    by (simp only:)
  from eq have "set (map fst (fdReadCallbacks (snd (applyPendingChanges rl)))) =
        set (map fd (pfds (snd (applyPendingChanges rl))))" by (simp only:)
  then show "fst ` set (fdReadCallbacks (snd (applyPendingChanges rl))) =
        fd ` set (pfds (snd (applyPendingChanges rl)))" by simp
next
  fix r st
  assume "consistent rl" and "dispatchPendingEvents pr rl w = Inr (r, st)"
  then show "consistent (runLoop st)" by (rule dispatchPendingEvents_consistent)
next
  fix rl1
  assume "consistent rl" and "sleepUntilNextEvent pr rl = Inr rl1"
  then show "consistent rl1" by (rule sleepUntilNextEvent_consistent)
qed

theorem descriptors_and_callbacks_agree_witness:
  "consistent (registerFdCallback (newRunLoop :: unit InternalRunLoop) 5 (\<lambda>d w. ([], w)) 1) \<and>
   consistent (snd (applyPendingChanges
     (registerFdCallback (newRunLoop :: unit InternalRunLoop) 5 (\<lambda>d w. ([], w)) 1))) \<and>
   map fst (fdReadCallbacks (snd (applyPendingChanges
     (registerFdCallback (newRunLoop :: unit InternalRunLoop) 5 (\<lambda>d w. ([], w)) 1)))) = [5] \<and>
   map fd (pfds (snd (applyPendingChanges
     (registerFdCallback (newRunLoop :: unit InternalRunLoop) 5 (\<lambda>d w. ([], w)) 1)))) = [5]"
proof -
  let ?cb = "\<lambda>(d::int) (w::unit). ([] :: unit call list, w)"
  let ?rl = "registerFdCallback (newRunLoop :: unit InternalRunLoop) 5 ?cb 1"
  from descriptors_and_callbacks_agree [where rl = "newRunLoop :: unit InternalRunLoop" and d = 5 and cb = ?cb and eventMask = 1]
  have c: "consistent ?rl" by blast
  from descriptors_and_callbacks_agree [where rl = ?rl] c
  have c1: "consistent (snd (applyPendingChanges ?rl))" by blast
  have "map fst (fdReadCallbacks (snd (applyPendingChanges ?rl))) = [5]"
    "map fd (pfds (snd (applyPendingChanges ?rl))) = [5]"
    by (simp_all add: run_loop_defs)
  with c c1 show ?thesis by simp
qed

lemma dispatch_on_empty_set:
  "pfds rl = [] \<Longrightarrow> pendingAdditions rl = [] \<Longrightarrow>
   dispatchPendingEvents pr rl w = Inl FrontOfEmptyVector"
  using applyPendingChanges_live [of rl]
  by (simp add: dispatchPendingEvents_def)

text \<open>
  C4. On a run loop with an empty descriptor set and nothing staged for addition,
  \<^verbatim>\<open>dispatchPendingEvents\<close> does not return "no event": it evaluates \<^verbatim>\<open>pfds.front()\<close>
  on the empty vector, which is undefined. This is so for a newly constructed run loop
  and for one whose only descriptor has been registered, merged and unregistered
  again. The idle wait has the same defect.
\<close>

theorem dispatch_on_empty_set_is_undefined:
  "dispatchPendingEvents pr newRunLoop w = Inl FrontOfEmptyVector \<and>
   dispatchPendingEvents pr
     (unregisterFdCallback (snd (applyPendingChanges (registerFdCallback newRunLoop d cb eventMask))) d) w
     = Inl FrontOfEmptyVector \<and>
   sleepUntilNextEvent pr newRunLoop = Inl FrontOfEmptyVector"
  by (simp add: run_loop_defs sleepUntilNextEvent_def)

text \<open>
  C8. \<^verbatim>\<open>postMessageToSystemQueue\<close> returns \<open>False\<close> exactly when the queue singleton
  does not exist; otherwise it appends the message to the queue and returns \<open>True\<close>.
\<close>

theorem postMessageToSystemQueue_result:
  "(fst (postMessageToSystemQueue inst message) = False \<longleftrightarrow> inst = None) \<and>
   (\<forall>q. inst = Some q \<longrightarrow>
      postMessageToSystemQueue inst message = (True, Some (postMessage q message)) \<and>
      queue (postMessage q message) = queue q @ [message])"
  by (cases inst) (simp_all add: postMessageToSystemQueue_def queue_postMessage)

theorem postMessageToSystemQueue_result_witness:
  "fst (postMessageToSystemQueue (None :: nat InternalMessageQueue option) 1) = False \<and>
   postMessageToSystemQueue (Some newQueue) (1::nat) = (True, Some (postMessage newQueue 1)) \<and>
   queue (postMessage newQueue (1::nat)) = [1]"
  using postMessageToSystemQueue_result [of "None :: nat InternalMessageQueue option" 1]
        postMessageToSystemQueue_result [of "Some (newQueue :: nat InternalMessageQueue)" 1]
  by (simp add: newQueue_def)

lemma foldl_handler_instance:
  "runLoopInstance (foldl keyboardBreakSignalHandler st xs) = runLoopInstance st"
  by (induction xs arbitrary: st) (simp_all add: keyboardBreakSignalHandler_def)

lemma returns_only_with_run_loop:
  assumes "dispatchNextMessageOnSystemQueue os sigs b st = Some y"
  shows "runLoopInstance st \<noteq> None"
proof (rule dispatchNextMessageOnSystemQueue.raw_induct
         [where P = "\<lambda>os sigs b st y. runLoopInstance st \<noteq> None", OF _ assms], goal_cases)
  case (1 loop os sigs b st y)
  show ?case
  proof
    assume none: "runLoopInstance st = None"
    let ?st0 = "(foldl keyboardBreakSignalHandler st (sigs (iterations st)))\<lparr> iterations := Suc (iterations st) \<rparr>"
    let ?st1 = "if keyboardBreakOccurred ?st0 then quit ?st0 else ?st0"
    from none have n1: "runLoopInstance ?st1 = None"
      by (simp add: foldl_handler_instance quit_def)
    with 1(2) have "loop os sigs b ?st1 = Some y" by (simp add: Let_def)
    from 1(1) [OF this] n1 show False by simp
  qed
qed

lemma dispatchNextMessageOnSystemQueue_nothing_pending:
  assumes "runLoopInstance st = Some rl" and "sigs (iterations st) = []"
    and "\<not> keyboardBreakOccurred st"
    and "dispatchPendingEvents (os (pollCalls st)) rl (outsideWorld st) = Inr (False, ps)"
  shows "dispatchNextMessageOnSystemQueue os sigs True st =
           Some (Inr (False, st\<lparr> iterations := Suc (iterations st),
                                 runLoopInstance := Some (runLoop ps), outsideWorld := outside ps,
                                 pollCalls := Suc (pollCalls st),
                                 dispatched := dispatched st @ invocations ps \<rparr>))"
  using assms by (subst dispatchNextMessageOnSystemQueue.simps) (simp add: Let_def)

text \<open>
  C9. When the run-loop singleton does not exist, \<^verbatim>\<open>dispatchNextMessageOnSystemQueue\<close>
  never returns, whatever the flag \<^verbatim>\<open>returnIfNoPendingMessages\<close>, the signals delivered
  and the kernel's answers are.
\<close>

theorem no_run_loop_never_returns:
  "runLoopInstance st = None \<Longrightarrow>
   dispatchNextMessageOnSystemQueue os sigs returnIfNoPendingMessages st = None"
  using returns_only_with_run_loop [of os sigs returnIfNoPendingMessages st]
  by (cases "dispatchNextMessageOnSystemQueue os sigs returnIfNoPendingMessages st") auto

theorem no_run_loop_never_returns_witness:
  "dispatchNextMessageOnSystemQueue (\<lambda>n. PollFailed) (\<lambda>n. if n = 3 then [2] else []) True
     \<lparr> keyboardBreakOccurred = False, runLoopInstance = (None :: unit InternalRunLoop option),
       outsideWorld = (), quitRequests = 0, pollCalls = 0, iterations = 0, dispatched = [] \<rparr>
   = None"
  by (rule no_run_loop_never_returns) simp

end
